theory Spec2Isabelle
  imports Main
begin

section \<open>Python strings\<close>

text \<open>
  The automation is Python (\<^verbatim>\<open>linkedin_playwright.py\<close> and \<^verbatim>\<open>ai_handler.py\<close>, quoted in
  \<^verbatim>\<open>IMPLEMENTATION.md\<close>). A Python \<^verbatim>\<open>str\<close> is modelled as a \<^typ>\<open>string\<close> whose characters
  are the code points below 256, so \<^term>\<open>length\<close> counts code points as \<^verbatim>\<open>len\<close> does.
  In that range \<^verbatim>\<open>str.isspace\<close> holds for 9..13, 28..32, 133 and 160, and \<^verbatim>\<open>str.lower\<close>
  moves A..Z and the Latin-1 capitals (192..222 except 215) 32 places up.
\<close>

definition isspace :: "char \<Rightarrow> bool" where
  "isspace c = (let n = (of_char c :: nat) in
     (9 \<le> n \<and> n \<le> 13) \<or> (28 \<le> n \<and> n \<le> 32) \<or> n = 133 \<or> n = 160)"

definition lower_char :: "char \<Rightarrow> char" where
  "lower_char c = (let n = (of_char c :: nat) in
     if (65 \<le> n \<and> n \<le> 90) \<or> (192 \<le> n \<and> n \<le> 222 \<and> n \<noteq> 215)
     then char_of (n + 32) else c)"

definition lower :: "string \<Rightarrow> string" where
  "lower s = map lower_char s"

text \<open>
\<^verbatim>\<open>s.strip()\<close>: whitespace removed at both ends.
\<close>

definition strip :: "string \<Rightarrow> string" where
  "strip s = rev (dropWhile isspace (rev (dropWhile isspace s)))"

text \<open>
\<^verbatim>\<open>sub in s\<close>: \<open>sub\<close> occurs in \<open>s\<close> as a contiguous substring.
\<close>

fun startswith :: "string \<Rightarrow> string \<Rightarrow> bool" where
  "startswith s [] = True"
| "startswith [] (p # ps) = False"
| "startswith (c # cs) (p # ps) = (c = p \<and> startswith cs ps)"

fun contains :: "string \<Rightarrow> string \<Rightarrow> bool" where
  "contains sub [] = (sub = [])"
| "contains sub (c # cs) = (startswith (c # cs) sub \<or> contains sub cs)"

text \<open>
  \<^verbatim>\<open>s.replace(old, new)\<close> for one-character \<open>old\<close> and \<open>new\<close>, the only use the code makes
  of it.
\<close>

definition replace_char :: "char \<Rightarrow> char \<Rightarrow> string \<Rightarrow> string" where
  "replace_char old new s = map (\<lambda>c. if c = old then new else c) s"

text \<open>
  \<^verbatim>\<open>s.split()\<close> with no argument: the maximal runs of non-whitespace characters, in order.
  The first argument of \<open>split_from\<close> is the word read so far. \<^verbatim>\<open>sep.join(ws)\<close> is
  \<open>join sep ws\<close>.
\<close>

fun split_from :: "string \<Rightarrow> string \<Rightarrow> string list" where
  "split_from w [] = (if w = [] then [] else [w])"
| "split_from w (c # cs) =
     (if isspace c then (if w = [] then split_from [] cs else w # split_from [] cs)
      else split_from (w @ [c]) cs)"

definition split_ws :: "string \<Rightarrow> string list" where
  "split_ws s = split_from [] s"

fun join :: "string \<Rightarrow> string list \<Rightarrow> string" where
  "join sep [] = []"
| "join sep [w] = w"
| "join sep (w # v # ws) = w @ sep @ join sep (v # ws)"

text \<open>
  A word as \<^verbatim>\<open>split()\<close> yields it (used in the statements below): not empty, and free of
  whitespace.
\<close>

definition word_ok :: "string \<Rightarrow> bool" where
  "word_ok w = (w \<noteq> [] \<and> list_all (\<lambda>c. \<not> isspace c) w)"

section \<open>Run state\<close>

text \<open>
  Exceptions are values. \<open>ServiceError\<close> stands for whatever the HTTP request to the model
  server or the decoding of its reply raises, \<open>InteractionError\<close> for a Playwright interaction
  (click, check) that fails.
\<close>

datatype error = ServiceError | InteractionError

text \<open>
  The class constants \<^verbatim>\<open>MAX_RETRIES = 3\<close> and \<^verbatim>\<open>RETRY_DELAY = 2\<close>, and the dictionary
  \<^verbatim>\<open>self.stats\<close> with its four counters, all zero when the bot is created.
\<close>

definition MAX_RETRIES :: nat where "MAX_RETRIES = 3"

definition RETRY_DELAY :: nat where "RETRY_DELAY = 2"

record stats =
  applications_submitted :: nat
  applications_failed :: nat
  fields_filled :: nat
  errors_encountered :: nat

text \<open>
  What one bot does to the outside world is kept in logs, so that a theorem can say which
  calls were made: \<open>ai_log\<close> holds every call of \<^verbatim>\<open>_get_answer\<close> (question and field type),
  \<open>slept\<close> every \<^verbatim>\<open>asyncio.sleep\<close> of the answer retry loop, and \<open>page_log\<close> every
  \<^verbatim>\<open>page.query_selector\<close> and every sleep of the modal locator, in the order they happen.
\<close>

datatype page_event = Query string | Wait nat

record bot =
  stats :: stats
  ai_log :: "(string \<times> string) list"
  slept :: "nat list"
  page_log :: "page_event list"

definition new_bot :: bot where
  "new_bot = \<lparr>stats = \<lparr>applications_submitted = 0, applications_failed = 0,
       fields_filled = 0, errors_encountered = 0\<rparr>, ai_log = [], slept = [], page_log = []\<rparr>"

definition count_failed :: "stats \<Rightarrow> stats" where
  "count_failed s = s\<lparr>applications_failed := applications_failed s + 1\<rparr>"

definition count_submitted :: "stats \<Rightarrow> stats" where
  "count_submitted s = s\<lparr>applications_submitted := applications_submitted s + 1\<rparr>"

definition count_filled :: "bot \<Rightarrow> bot" where
  "count_filled b = b\<lparr>stats := (stats b)\<lparr>fields_filled := fields_filled (stats b) + 1\<rparr>\<rparr>"

section \<open>Answer Service Client (\<^verbatim>\<open>ai_handler.py\<close>)\<close>

text \<open>
  \<^verbatim>\<open>AIHandler.generate_answer(question, field_type)\<close>: the prompt is built from the question
  and the resume and posted to the model server. The parameter \<open>ollama\<close> is the server: what it
  answers to a prompt, or that the request fails. The response text is cleaned before it is
  returned:
  \<^verbatim>\<open>answer = answer.replace('\n', ' ').replace('\r', ' ')\<close>, then
  \<^verbatim>\<open>answer = ' '.join(answer.split())\<close>.
\<close>

datatype ollama_reply = RequestFails | Response string

definition build_prompt :: "string \<Rightarrow> string \<Rightarrow> string" where
  "build_prompt resume_content question =
     ''You are filling out a job application form.'' @ [CHR 0x0A] @
     ''Question: '' @ question @ [CHR 0x0A, CHR 0x0A] @
     ''Based on this resume: '' @ resume_content @ [CHR 0x0A, CHR 0x0A] @
     ''Provide a short, direct answer (1-5 words max).'' @ [CHR 0x0A]"

definition clean_answer :: "string \<Rightarrow> string" where
  "clean_answer answer =
     (let answer = replace_char (CHR 0x0D) (CHR '' '') (replace_char (CHR 0x0A) (CHR '' '') answer)
      in join '' '' (split_ws answer))"

definition generate_answer ::
  "(string \<Rightarrow> ollama_reply) \<Rightarrow> string \<Rightarrow> string \<Rightarrow> string \<Rightarrow> error + string" where
  "generate_answer ollama resume_content question field_type =
     (case ollama (build_prompt resume_content question) of
        RequestFails \<Rightarrow> Inl ServiceError
      | Response answer \<Rightarrow> Inr (clean_answer answer))"

section \<open>Answer retry and fallback (\<^verbatim>\<open>_get_answer_with_retry\<close>, \<^verbatim>\<open>_get_fallback_answer\<close>)\<close>

text \<open>
  \<^verbatim>\<open>_get_answer\<close> is declared in the class but its body is not part of the sources, so it
  is a parameter: an \<open>answer_service\<close> says, for the n-th call made by this bot and its
  arguments, whether the call raises or what it returns (\<^verbatim>\<open>None\<close> or a string).
\<close>

datatype reply = Raises | Returns "string option"

type_synonym answer_service = "nat \<Rightarrow> string \<Rightarrow> string \<Rightarrow> reply"

text \<open>
  The fallback table, in the order of the \<^verbatim>\<open>if\<close> chain of the source. \<open>fallback_answers\<close>
  lists the strings the table can return.
\<close>

definition get_fallback_answer :: "string \<Rightarrow> string \<Rightarrow> string" where
  "get_fallback_answer question field_type =
     (let q_lower = lower question in
      if contains ''phone'' q_lower \<or> contains ''mobile'' q_lower then ''5551234567''
      else if contains ''email'' q_lower then ''alex.danny@email.com''
      else if contains ''city'' q_lower then ''New York''
      else if contains ''state'' q_lower then ''NY''
      else if contains ''year'' q_lower \<and> contains ''experience'' q_lower then ''5''
      else if contains ''salary'' q_lower \<or> contains ''compensation'' q_lower then ''120000''
      else if field_type = ''boolean'' then
        (if contains ''sponsorship'' q_lower then ''No'' else ''Yes'')
      else ''Not applicable'')"

definition fallback_answers :: "string list" where
  "fallback_answers = [''5551234567'', ''alex.danny@email.com'', ''New York'', ''NY'', ''5'',
     ''120000'', ''No'', ''Yes'', ''Not applicable'']"

text \<open>
  \<^verbatim>\<open>for attempt in range(self.MAX_RETRIES)\<close>: the answer is returned when
  \<^verbatim>\<open>answer and len(answer.strip()) > 0\<close>; an exception is caught, and followed by a sleep of
  \<^verbatim>\<open>RETRY_DELAY\<close> unless the attempt was the last; an empty answer goes to the next attempt
  at once. After the loop the fallback answer is returned.
\<close>

fun answer_attempts ::
  "answer_service \<Rightarrow> string \<Rightarrow> string \<Rightarrow> nat list \<Rightarrow> bot \<Rightarrow> string option \<times> bot" where
  "answer_attempts ai question field_type [] b = (None, b)"
| "answer_attempts ai question field_type (attempt # rest) b =
     (let b1 = b\<lparr>ai_log := ai_log b @ [(question, field_type)]\<rparr> in
      case ai (length (ai_log b)) question field_type of
        Returns (Some answer) \<Rightarrow>
          if answer \<noteq> [] \<and> 0 < length (strip answer) then (Some answer, b1)
          else answer_attempts ai question field_type rest b1
      | Returns None \<Rightarrow> answer_attempts ai question field_type rest b1
      | Raises \<Rightarrow>
          answer_attempts ai question field_type rest
            (if attempt < MAX_RETRIES - 1 then b1\<lparr>slept := slept b1 @ [RETRY_DELAY]\<rparr> else b1))"

definition get_answer_with_retry ::
  "answer_service \<Rightarrow> string \<Rightarrow> string \<Rightarrow> bot \<Rightarrow> string \<times> bot" where
  "get_answer_with_retry ai question field_type b =
     (case answer_attempts ai question field_type [0..<MAX_RETRIES] b of
        (Some answer, b') \<Rightarrow> (answer, b')
      | (None, b') \<Rightarrow> (get_fallback_answer question field_type, b'))"

text \<open>
A reply the retry loop accepts (used in the statements below).
\<close>

definition usable :: "reply \<Rightarrow> bool" where
  "usable r = (case r of Raises \<Rightarrow> False | Returns None \<Rightarrow> False
               | Returns (Some a) \<Rightarrow> strip a \<noteq> [])"

section \<open>Numeric normalization\<close>

text \<open>
  Modelled from the spec: the numeric parsing of \<^verbatim>\<open>ai_handler.py\<close>
  (\<^verbatim>\<open>_handle_numeric_question\<close>) is named in the sources only by its signature, a commit
  message and one example (\<^verbatim>\<open>"3.5/4.0"\<close> gives \<^verbatim>\<open>"3.5"\<close>); its code is missing. The
  specification says: a value containing a "/" fraction pattern (a score out of a maximum) is
  reduced to its first numeric component only. A numeric component is taken to be a string of
  decimal digits with at most one decimal point; an answer that is not of the shape
  \<open>a/b\<close> with two such components is left as it is.
\<close>

definition is_number :: "string \<Rightarrow> bool" where
  "is_number s =
     (list_ex (\<lambda>c. c \<in> set ''0123456789'') s
      \<and> list_all (\<lambda>c. c \<in> set ''0123456789.'') s
      \<and> length (filter (\<lambda>c. c = CHR ''.'') s) \<le> 1)"

definition normalize_numeric :: "string \<Rightarrow> string" where
  "normalize_numeric answer =
     (let a = takeWhile (\<lambda>c. c \<noteq> CHR ''/'') answer;
          rest = dropWhile (\<lambda>c. c \<noteq> CHR ''/'') answer
      in case rest of
           [] \<Rightarrow> answer
         | slash # b \<Rightarrow> if is_number a \<and> is_number b then a else answer)"

section \<open>Modal Locator (\<^verbatim>\<open>_get_modal_with_retry\<close>)\<close>

text \<open>
  A handle names an element of the page. The page is outside the program and changes with
  time: a \<open>page_view\<close> says what \<^verbatim>\<open>page.query_selector(selector)\<close> returns when it is the
  event number \<open>n\<close> of the bot's \<open>page_log\<close>.
\<close>

type_synonym handle = nat

type_synonym page_view = "nat \<Rightarrow> string \<Rightarrow> handle option"

definition MODAL_SELECTORS :: "string list" where
  \<open>MODAL_SELECTORS = [''.jobs-easy-apply-modal'', ''[role="dialog"]'', ''.jobs-easy-apply-content'']\<close>

text \<open>
  The inner loop \<^verbatim>\<open>for selector in self.MODAL_SELECTORS\<close> returns the first handle found;
  the outer loop \<^verbatim>\<open>for attempt in range(self.MAX_RETRIES)\<close> sleeps \<^verbatim>\<open>RETRY_DELAY\<close> after a
  miss unless the attempt was the last, and \<^verbatim>\<open>None\<close> is returned after the last miss.
\<close>

fun try_selectors :: "page_view \<Rightarrow> string list \<Rightarrow> bot \<Rightarrow> handle option \<times> bot" where
  "try_selectors page [] b = (None, b)"
| "try_selectors page (selector # rest) b =
     (let b1 = b\<lparr>page_log := page_log b @ [Query selector]\<rparr> in
      case page (length (page_log b)) selector of
        Some modal \<Rightarrow> (Some modal, b1)
      | None \<Rightarrow> try_selectors page rest b1)"

fun modal_attempts :: "page_view \<Rightarrow> nat list \<Rightarrow> bot \<Rightarrow> handle option \<times> bot" where
  "modal_attempts page [] b = (None, b)"
| "modal_attempts page (attempt # rest) b =
     (case try_selectors page MODAL_SELECTORS b of
        (Some modal, b1) \<Rightarrow> (Some modal, b1)
      | (None, b1) \<Rightarrow>
          modal_attempts page rest
            (if attempt < MAX_RETRIES - 1 then b1\<lparr>page_log := page_log b1 @ [Wait RETRY_DELAY]\<rparr>
             else b1))"

definition get_modal_with_retry :: "page_view \<Rightarrow> bot \<Rightarrow> handle option \<times> bot" where
  "get_modal_with_retry page b = modal_attempts page [0..<MAX_RETRIES] b"

text \<open>
  For the statements below: the events of a locate call that finds nothing, and what it means
  that handle \<open>m\<close> is found by selector \<open>i\<close> of attempt \<open>t\<close> when the log held \<open>n\<close> events at
  the start (every earlier query of the call missed).
\<close>

definition locate_schedule :: "page_event list" where
  "locate_schedule =
     map Query MODAL_SELECTORS @ [Wait RETRY_DELAY] @
     map Query MODAL_SELECTORS @ [Wait RETRY_DELAY] @
     map Query MODAL_SELECTORS"

definition found_at :: "page_view \<Rightarrow> nat \<Rightarrow> nat \<Rightarrow> nat \<Rightarrow> handle \<Rightarrow> bool" where
  "found_at page n t i m \<longleftrightarrow>
     page (n + t * (length MODAL_SELECTORS + 1) + i) (MODAL_SELECTORS ! i) = Some m
     \<and> (\<forall>t' i'. i' < length MODAL_SELECTORS \<and> (t' < t \<or> (t' = t \<and> i' < i)) \<longrightarrow>
           page (n + t' * (length MODAL_SELECTORS + 1) + i') (MODAL_SELECTORS ! i') = None)"

section \<open>The page and the Field Classifier (\<^verbatim>\<open>_get_field_label\<close>)\<close>

text \<open>
  The document is a list of elements in document order; a handle is a position in it. Each
  element carries what the code reads through Playwright: its tag, its attributes, its text
  (\<^verbatim>\<open>inner_text()\<close>, \<^verbatim>\<open>textContent\<close>), its parent, and the properties \<^verbatim>\<open>value\<close>,
  \<^verbatim>\<open>checked\<close> and \<^verbatim>\<open>files.length\<close>. The handles passed around are those that queries
  on the same document return, hence positions of the list.
\<close>

record element =
  el_tag :: string
  el_attrs :: "(string \<times> string) list"
  el_text :: string
  el_parent :: "handle option"
  el_value :: string
  el_checked :: bool
  el_files :: nat

type_synonym dom = "element list"

text \<open>
  What a call touches: a query over the whole document
  (\<^verbatim>\<open>self.page.query_selector(selector)\<close>), or a read of one element.
\<close>

datatype access = PageQuery string | Read handle

definition get_attribute :: "dom \<Rightarrow> handle \<Rightarrow> string \<Rightarrow> string option" where
  "get_attribute d h name = map_of (el_attrs (d ! h)) name"

text \<open>
  Python's truth value of an attribute (\<^verbatim>\<open>if aria_label:\<close>): present and not empty.
\<close>

definition truthy :: "string option \<Rightarrow> bool" where
  "truthy v = (case v of None \<Rightarrow> False | Some s \<Rightarrow> s \<noteq> [])"

definition str_of :: "string option \<Rightarrow> string" where
  "str_of v = (case v of None \<Rightarrow> [] | Some s \<Rightarrow> s)"

text \<open>
  The ancestors of an element, nearest first (the fuel bounds the walk by the size of the
  document), and whether an element lies inside a container.
\<close>

fun ancestors :: "dom \<Rightarrow> nat \<Rightarrow> handle \<Rightarrow> handle list" where
  "ancestors d 0 h = []"
| "ancestors d (Suc n) h =
     (if h < length d then
        (case el_parent (d ! h) of None \<Rightarrow> [] | Some p \<Rightarrow> p # ancestors d n p)
      else [])"

definition inside :: "dom \<Rightarrow> handle \<Rightarrow> handle \<Rightarrow> bool" where
  "inside d container h = (container \<in> set (ancestors d (length d) h))"

text \<open>
  \<^verbatim>\<open>page.query_selector(sel)\<close> is the first element of the document that matches;
  \<^verbatim>\<open>container.query_selector_all(sel)\<close> the matching elements inside the container;
  \<^verbatim>\<open>el.closest('label')\<close> the nearest of the element and its ancestors with that tag. A
  selector is given by the elements it matches; the value of the \<^verbatim>\<open>type\<close> attribute is compared
  without regard to case, as \<^verbatim>\<open>input[type="text"]\<close> does in an HTML document.
\<close>

definition query_selector :: "dom \<Rightarrow> (element \<Rightarrow> bool) \<Rightarrow> handle option" where
  "query_selector d matches = find (\<lambda>h. matches (d ! h)) [0..<length d]"

definition query_selector_all_in :: "dom \<Rightarrow> handle \<Rightarrow> (element \<Rightarrow> bool) \<Rightarrow> handle list" where
  "query_selector_all_in d container matches =
     filter (\<lambda>h. inside d container h \<and> matches (d ! h)) [0..<length d]"

definition closest :: "dom \<Rightarrow> string \<Rightarrow> handle \<Rightarrow> handle option" where
  "closest d tg h = find (\<lambda>a. a < length d \<and> el_tag (d ! a) = tg) (h # ancestors d (length d) h)"

definition is_label_for :: "string \<Rightarrow> element \<Rightarrow> bool" where
  "is_label_for field_id el = (el_tag el = ''label'' \<and> map_of (el_attrs el) ''for'' = Some field_id)"

definition label_for_selector :: "string \<Rightarrow> string" where
  \<open>label_for_selector field_id = ''label[for="'' @ field_id @ ''"]''\<close>

definition has_type :: "string \<Rightarrow> element \<Rightarrow> bool" where
  "has_type t el =
     (case map_of (el_attrs el) ''type'' of None \<Rightarrow> False | Some v \<Rightarrow> lower v = t)"

definition is_text_input :: "element \<Rightarrow> bool" where
  "is_text_input el = (el_tag el = ''input'' \<and> has_type ''text'' el)"


text \<open>
  \<^verbatim>\<open>_get_field_label(element)\<close> with its four fallbacks in the order of the source:
  \<^verbatim>\<open>aria-label\<close>, the \<^verbatim>\<open>label[for="<id>"]\<close> element, \<^verbatim>\<open>placeholder\<close>, the enclosing
  label, and \<^verbatim>\<open>"Unknown"\<close> last. The second component lists what the call touched, in
  order. The associated label is looked up with \<^verbatim>\<open>self.page.query_selector\<close>, that is, in
  the whole document.
\<close>

definition get_field_label_traced :: "dom \<Rightarrow> handle \<Rightarrow> string \<times> access list" where
  "get_field_label_traced d element =
     (let aria_label = get_attribute d element ''aria-label'';
          t1 = [Read element]
      in if truthy aria_label then (strip (str_of aria_label), t1)
      else
        let field_id = get_attribute d element ''id'';
            t2 = t1 @ [Read element];
            label_el = (if truthy field_id
                        then query_selector d (is_label_for (str_of field_id)) else None);
            t3 = (if truthy field_id
                  then t2 @ [PageQuery (label_for_selector (str_of field_id))] else t2)
        in case label_el of
             Some l \<Rightarrow> (strip (el_text (d ! l)), t3 @ [Read l])
           | None \<Rightarrow>
               let placeholder = get_attribute d element ''placeholder'';
                   t4 = t3 @ [Read element]
               in if truthy placeholder then (strip (str_of placeholder), t4)
               else
                 let parent = closest d ''label'' element;
                     parent_label = (case parent of None \<Rightarrow> None | Some p \<Rightarrow> Some (el_text (d ! p)));
                     t5 = t4 @ (case parent of None \<Rightarrow> [] | Some p \<Rightarrow> [Read p])
                 in if truthy parent_label then (strip (str_of parent_label), t5)
                    else (''Unknown'', t5))"

definition get_field_label :: "dom \<Rightarrow> handle \<Rightarrow> string" where
  "get_field_label d element = fst (get_field_label_traced d element)"

text \<open>
  The keyword lists and \<^verbatim>\<open>any(kw in s for kw in kws)\<close>;
  \<^verbatim>\<open>_determine_field_type(element, label)\<close>, which looks at the label only.
\<close>

definition SKIP_KEYWORDS :: "string list" where
  "SKIP_KEYWORDS = [''search by title'', ''search for'', ''type to search'',
     ''filter results by'', ''filter by'']"


definition any_in :: "string list \<Rightarrow> string \<Rightarrow> bool" where
  "any_in kws s = list_ex (\<lambda>kw. contains kw s) kws"

definition determine_field_type :: "handle \<Rightarrow> string \<Rightarrow> string" where
  "determine_field_type element label =
     (let label_lower = lower label in
      if any_in [''phone'', ''mobile'', ''salary'', ''compensation''] label_lower then ''numeric''
      else if contains ''year'' label_lower \<and> contains ''experience'' label_lower then ''numeric''
      else if any_in [''authorized to work'', ''require sponsorship''] label_lower then ''boolean''
      else ''text'')"

section \<open>Form Filler\<close>

text \<open>
  Algorithm 2 (\<^verbatim>\<open>fill_field\<close>) for one text input: derive the label; return if the label
  holds a skip keyword; return if the field holds a value that is not empty and shorter than
  100; otherwise determine the field type, get the answer under the retry policy, write it
  and count the field. The answer is a string in every case, so the test
  \<^verbatim>\<open>answer is not NULL\<close> always succeeds. \<open>fill_text_inputs\<close> is the loop
  \<^verbatim>\<open>for inp in text_inputs\<close> over
  \<^verbatim>\<open>modal.query_selector_all('input[type="text"]')\<close>.
\<close>

definition fill_field :: "answer_service \<Rightarrow> handle \<Rightarrow> dom \<times> bot \<Rightarrow> dom \<times> bot" where
  "fill_field ai field s =
     (case s of (d, b) \<Rightarrow>
        let label = get_field_label d field in
        if any_in SKIP_KEYWORDS (lower label) then (d, b)
        else
          let current_value = el_value (d ! field) in
          if current_value \<noteq> [] \<and> length current_value < 100 then (d, b)
          else
            let field_type = determine_field_type field label in
            case get_answer_with_retry ai label field_type b of
              (answer, b1) \<Rightarrow> (d[field := (d ! field)\<lparr>el_value := answer\<rparr>], count_filled b1))"

definition fill_text_inputs :: "answer_service \<Rightarrow> handle \<Rightarrow> dom \<times> bot \<Rightarrow> dom \<times> bot" where
  "fill_text_inputs ai modal s =
     fold (fill_field ai) (query_selector_all_in (fst s) modal is_text_input) s"








section \<open>Navigation Controller (\<^verbatim>\<open>_handle_application_modal\<close>)\<close>

text \<open>
  One pass of the loop sees the modal through five queries: the submit button, the next button
  by its label and by its text, the review button (each absent, or present and enabled or
  not), and the inline error elements after the fields were filled (\<^verbatim>\<open>None\<close> when the
  query raises; an element whose \<^verbatim>\<open>inner_text()\<close> raises is \<^verbatim>\<open>None\<close> in the list).
\<close>

datatype outcome = Submitted | Aborted | TimedOut

datatype click = ClickSubmit | ClickNext | ClickReview

record observation =
  submit_btn :: "bool option"
  next_btn_aria :: "bool option"
  next_btn_text :: "bool option"
  review_btn :: "bool option"
  error_els :: "string option list option"

text \<open>
  The local variables of Algorithm 3 (\<^verbatim>\<open>page_num\<close>, \<^verbatim>\<open>step\<close>,
  \<^verbatim>\<open>consecutive_errors\<close>), the buttons clicked so far, the number of calls of
  \<^verbatim>\<open>upload_resume\<close> and \<^verbatim>\<open>fill_modal_fields\<close>, and the run statistics.
\<close>

record attempt =
  page_num :: nat
  step :: nat
  consecutive_errors :: nat
  clicks :: "click list"
  uploads :: nat
  fill_passes :: nat
  run_stats :: stats

text \<open>
  \<^verbatim>\<open>_check_for_errors(modal)\<close>: true when the query returns at least one element and every
  text can be read; any exception makes it false.
\<close>

definition check_for_errors :: "observation \<Rightarrow> bool" where
  "check_for_errors ob =
     (case error_els ob of
        None \<Rightarrow> False
      | Some els \<Rightarrow> if els \<noteq> [] \<and> 0 < length els
                   then (if list_all (\<lambda>t. t \<noteq> None) els then True else False)
                   else False)"

definition enabled :: "bool option \<Rightarrow> bool" where
  "enabled btn = (case btn of None \<Rightarrow> False | Some is_enabled \<Rightarrow> is_enabled)"

text \<open>
  The next button: \<^verbatim>\<open>button[aria-label*="Continue to next step"]\<close>, and
  \<^verbatim>\<open>button:has-text("Next")\<close> only when the first is absent.
\<close>

definition find_next_btn :: "observation \<Rightarrow> bool option" where
  "find_next_btn ob = (case next_btn_aria ob of None \<Rightarrow> next_btn_text ob | Some e \<Rightarrow> Some e)"

text \<open>
  Step 6 of Algorithm 3 (the navigation excerpt of the Python): an enabled next button is
  clicked and the page counted, else an enabled review button is clicked, else nothing
  happens; in each case the loop goes on (\<open>None\<close> is \<^verbatim>\<open>continue\<close>).
\<close>

definition navigate :: "observation \<Rightarrow> attempt \<Rightarrow> outcome option \<times> attempt" where
  "navigate ob a =
     (if enabled (find_next_btn ob)
      then (None, a\<lparr>page_num := page_num a + 1, clicks := clicks a @ [ClickNext]\<rparr>)
      else if enabled (review_btn ob)
      then (None, a\<lparr>clicks := clicks a @ [ClickReview]\<rparr>)
      else (None, a))"

text \<open>
  The body of the loop of Algorithm 3, with the statistics of the Python excerpts: the step is
  counted; an enabled submit button is clicked and ends the attempt; otherwise the resume is
  uploaded, the fields are filled and the errors are checked. An error raises
  \<^verbatim>\<open>consecutive_errors\<close>, and at 3 the attempt ends with
  \<^verbatim>\<open>self.stats['applications_failed'] += 1\<close>; no error resets the counter. Then the
  navigation.
\<close>

definition handle_step :: "observation \<Rightarrow> attempt \<Rightarrow> outcome option \<times> attempt" where
  "handle_step ob a0 =
     (let a = a0\<lparr>step := step a0 + 1\<rparr> in
      if enabled (submit_btn ob) then (Some Submitted, a\<lparr>clicks := clicks a @ [ClickSubmit]\<rparr>)
      else
        let a = a\<lparr>uploads := uploads a + 1\<rparr>;
            a = a\<lparr>fill_passes := fill_passes a + 1\<rparr>;
            has_errors = check_for_errors ob
        in
        if has_errors then
          (let a = a\<lparr>consecutive_errors := consecutive_errors a + 1\<rparr> in
           if 3 \<le> consecutive_errors a
           then (Some Aborted, a\<lparr>run_stats := count_failed (run_stats a)\<rparr>)
           else navigate ob a)
        else navigate ob (a\<lparr>consecutive_errors := 0\<rparr>))"

text \<open>
  \<^verbatim>\<open>WHILE step < MAX_STEPS\<close>; leaving the loop is the timeout. \<^verbatim>\<open>MAX_STEPS\<close> has no value
  in the sources and is a parameter. \<open>modal k\<close> is what pass \<open>k\<close> sees.
\<close>

function handle_steps :: "nat \<Rightarrow> (nat \<Rightarrow> observation) \<Rightarrow> attempt \<Rightarrow> outcome \<times> attempt" where
  "handle_steps MAX_STEPS modal a =
     (if step a < MAX_STEPS then
        (case handle_step (modal (step a + 1)) a of
           (Some out, a') \<Rightarrow> (out, a')
         | (None, a') \<Rightarrow> handle_steps MAX_STEPS modal a')
      else (TimedOut, a))"
  by pat_completeness auto

termination
  by (relation "measure (\<lambda>(MAX_STEPS, modal, a). MAX_STEPS - step a)")
     (auto simp: handle_step_def navigate_def Let_def split: if_splits)

declare handle_steps.simps [simp del]

definition new_attempt :: "stats \<Rightarrow> attempt" where
  "new_attempt s = \<lparr>page_num = 1, step = 0, consecutive_errors = 0, clicks = [],
     uploads = 0, fill_passes = 0, run_stats = s\<rparr>"

definition handle_application_modal ::
  "nat \<Rightarrow> (nat \<Rightarrow> observation) \<Rightarrow> stats \<Rightarrow> outcome \<times> attempt" where
  "handle_application_modal MAX_STEPS modal s = handle_steps MAX_STEPS modal (new_attempt s)"

text \<open>
  For the proofs: starting after pass \<open>n\<close> with \<open>c\<close> consecutive errors, pass \<open>k\<close> is reached
  without a submit and is the third consecutive error.
\<close>

definition abort_by :: "nat \<Rightarrow> (nat \<Rightarrow> observation) \<Rightarrow> nat \<Rightarrow> nat \<Rightarrow> nat \<Rightarrow> bool" where
  "abort_by M modal n c k \<longleftrightarrow>
     n < k \<and> k \<le> M
     \<and> (\<forall>j. n < j \<and> j \<le> k \<longrightarrow> \<not> enabled (submit_btn (modal j)))
     \<and> (\<forall>j. n < j \<and> j \<le> k \<and> k < j + 3 \<longrightarrow> check_for_errors (modal j))
     \<and> n + 3 \<le> k + c"

section \<open>One job after the other\<close>

text \<open>
  Modelled from the spec: the code that calls \<^verbatim>\<open>_get_modal_with_retry\<close> and
  \<^verbatim>\<open>_handle_application_modal\<close> for every job (\<^verbatim>\<open>apply_to_jobs\<close>) is missing from the
  sources. The specification says: the modal not found makes the attempt Aborted, reported as
  a failure; Submitted increments \<open>RunStatistics.submitted\<close>; on Aborted or TimedOut
  \<open>RunStatistics.failed\<close> increments exactly once per attempt; a failed attempt does not stop
  the run, the controller proceeds to the next job. The abort on three consecutive errors is
  counted inside \<open>handle_step\<close>, as the code has it, and not a second time here.
\<close>

definition apply_to_job ::
  "nat \<Rightarrow> page_view \<Rightarrow> (nat \<Rightarrow> observation) \<Rightarrow> bot \<Rightarrow> outcome \<times> bot" where
  "apply_to_job MAX_STEPS page modal b =
     (case get_modal_with_retry page b of
        (None, b1) \<Rightarrow> (Aborted, b1\<lparr>stats := count_failed (stats b1)\<rparr>)
      | (Some container, b1) \<Rightarrow>
          (case handle_application_modal MAX_STEPS modal (stats b1) of
             (Submitted, a) \<Rightarrow> (Submitted, b1\<lparr>stats := count_submitted (run_stats a)\<rparr>)
           | (Aborted, a) \<Rightarrow> (Aborted, b1\<lparr>stats := run_stats a\<rparr>)
           | (TimedOut, a) \<Rightarrow> (TimedOut, b1\<lparr>stats := count_failed (run_stats a)\<rparr>)))"

fun apply_to_jobs ::
  "nat \<Rightarrow> (page_view \<times> (nat \<Rightarrow> observation)) list \<Rightarrow> bot \<Rightarrow> outcome list \<times> bot" where
  "apply_to_jobs MAX_STEPS [] b = ([], b)"
| "apply_to_jobs MAX_STEPS ((page, modal) # jobs) b =
     (case apply_to_job MAX_STEPS page modal b of
        (out, b1) \<Rightarrow>
          (case apply_to_jobs MAX_STEPS jobs b1 of (outs, b2) \<Rightarrow> (out # outs, b2)))"

section \<open>Example inputs\<close>

text \<open>
  A page whose search label, outside the modal, carries the id of a field of the application
  form; a modal with a file input, a text input and a checkbox whose labels hold skip
  keywords; a modal whose controls are all filled; a modal with text inputs and a consent
  checkbox; a browser in which every upload, click and check succeeds; an answer service
  that says "No" and one that says "Yes"; a modal that reports a validation error on every
  pass; an application of three passes (next, review, submit).
\<close>

definition blank :: element where
  "blank = \<lparr>el_tag = ''div'', el_attrs = [], el_text = [], el_parent = None, el_value = [],
     el_checked = False, el_files = 0\<rparr>"

definition leaky_page :: dom where
  \<open>leaky_page =
    [blank\<lparr>el_tag := ''body''\<rparr>,
     blank\<lparr>el_tag := ''label'', el_attrs := [(''for'', ''q1'')],
           el_text := ''Search by title, skill, or company'', el_parent := Some 0\<rparr>,
     blank\<lparr>el_tag := ''div'', el_attrs := [(''class'', ''jobs-easy-apply-modal'')],
           el_parent := Some 0\<rparr>,
     blank\<lparr>el_tag := ''input'', el_attrs := [(''type'', ''text''), (''id'', ''q1'')],
           el_parent := Some 2\<rparr>]\<close>







definition yes_service :: answer_service where
  "yes_service n question field_type = Returns (Some ''Yes'')"

definition no_stats :: stats where
  "no_stats = \<lparr>applications_submitted = 0, applications_failed = 0, fields_filled = 0,
     errors_encountered = 0\<rparr>"

definition error_page :: observation where
  "error_page = \<lparr>submit_btn = None, next_btn_aria = Some True, next_btn_text = None,
     review_btn = None, error_els = Some [Some ''Please enter a valid answer'']\<rparr>"

definition easy_flow :: "nat \<Rightarrow> observation" where
  "easy_flow k =
     (if k = 1 then \<lparr>submit_btn = None, next_btn_aria = None, next_btn_text = Some True,
                      review_btn = None, error_els = Some []\<rparr>
      else if k = 2 then \<lparr>submit_btn = Some False, next_btn_aria = None, next_btn_text = None,
                      review_btn = Some True, error_els = Some []\<rparr>
      else \<lparr>submit_btn = Some True, next_btn_aria = None, next_btn_text = None,
             review_btn = None, error_els = Some []\<rparr>)"

section \<open>Properties of the string operations\<close>

lemma startswith_iff: "startswith s p \<longleftrightarrow> (\<exists>q. s = p @ q)"
  by (induction s p rule: startswith.induct) auto

lemma contains_iff: "contains sub s \<longleftrightarrow> (\<exists>p q. s = p @ sub @ q)"
proof (induction s)
  case Nil
  then show ?case by auto
next
  case (Cons c cs)
  show ?case
  proof
    assume "contains sub (c # cs)"
    then consider "startswith (c # cs) sub" | "contains sub cs" by auto
    then show "\<exists>p q. c # cs = p @ sub @ q"
    proof cases
      case 1
      then obtain q where "c # cs = sub @ q" by (auto simp: startswith_iff)
      then have "c # cs = [] @ sub @ q" by simp
      then show ?thesis by blast
    next
      case 2
      then obtain p q where "cs = p @ sub @ q" using Cons.IH by auto
      then have "c # cs = (c # p) @ sub @ q" by simp
      then show ?thesis by blast
    qed
  next
    assume "\<exists>p q. c # cs = p @ sub @ q"
    then obtain p q where pq: "c # cs = p @ sub @ q" by blast
    show "contains sub (c # cs)"
    proof (cases p)
      case Nil
      with pq have "startswith (c # cs) sub" by (auto simp: startswith_iff)
      then show ?thesis by simp
    next
      case (Cons a p')
      with pq have "cs = p' @ sub @ q" by simp
      then have "contains sub cs" using Cons.IH by blast
      then show ?thesis by simp
    qed
  qed
qed

lemma isspace_space: "isspace (CHR '' '')"
  by (simp add: isspace_def)

lemma strip_Nil: "strip [] = []"
  by (simp add: strip_def)

lemma strip_id:
  assumes "a \<noteq> [] \<Longrightarrow> \<not> isspace (hd a) \<and> \<not> isspace (last a)"
  shows "strip a = a"
proof (cases a)
  case Nil
  then show ?thesis by (simp add: strip_def)
next
  case (Cons x xs)
  with assms have h: "\<not> isspace x" and l: "\<not> isspace (last a)" by auto
  have 1: "dropWhile isspace a = a" using Cons h by simp
  have "a \<noteq> []" using Cons by simp
  then have hr: "hd (rev a) = last a" and "rev a \<noteq> []" by (simp_all add: hd_rev)
  then obtain y ys where ra: "rev a = y # ys" by (cases "rev a") auto
  have "\<not> isspace y" using hr l unfolding ra by simp
  then have 2: "dropWhile isspace (rev a) = rev a" unfolding ra by simp
  show ?thesis by (simp add: strip_def 1 2)
qed

lemma split_from_words:
  "list_all (\<lambda>c. \<not> isspace c) w \<Longrightarrow> list_all word_ok (split_from w s)"
  by (induction s arbitrary: w) (auto simp: word_ok_def)

lemma split_from_map:
  assumes "\<And>c. isspace (f c) = isspace c" and "\<And>c. \<not> isspace c \<Longrightarrow> f c = c"
  shows "split_from w (map f s) = split_from w s"
  using assms by (induction s arbitrary: w) auto

lemma split_from_word:
  "list_all (\<lambda>c. \<not> isspace c) v \<Longrightarrow> split_from w (v @ s) = split_from (w @ v) s"
  by (induction v arbitrary: w) auto

lemma split_from_replace_char:
  "isspace old \<Longrightarrow> isspace new \<Longrightarrow> split_from w (replace_char old new s) = split_from w s"
  unfolding replace_char_def by (rule split_from_map) auto

lemma split_ws_words: "list_all word_ok (split_ws r)"
  by (simp add: split_ws_def split_from_words)

lemma split_from_join:
  "list_all word_ok ws \<Longrightarrow> split_from [] (join '' '' ws) = ws"
proof (induction ws rule: induct_list012)
  case 1
  then show ?case by simp
next
  case (2 w)
  then show ?case using split_from_word[of w "[]" "[]"] by (simp add: word_ok_def)
next
  case (3 w v ws)
  then show ?case
    using split_from_word[of w "[]" "CHR '' '' # join '' '' (v # ws)"]
    by (simp add: word_ok_def isspace_space)
qed

lemma join_spaces_only:
  "list_all word_ok ws \<Longrightarrow> c \<in> set (join '' '' ws) \<Longrightarrow> isspace c \<Longrightarrow> c = CHR '' ''"
  by (induction ws rule: induct_list012) (auto simp: word_ok_def list_all_iff)

lemma join_hd:
  "list_all word_ok ws \<Longrightarrow> ws \<noteq> [] \<Longrightarrow> \<not> isspace (hd (join '' '' ws)) \<and> join '' '' ws \<noteq> []"
  by (induction ws rule: induct_list012) (auto simp: word_ok_def list_all_iff hd_append)

lemma join_last:
  "list_all word_ok ws \<Longrightarrow> ws \<noteq> [] \<Longrightarrow> \<not> isspace (last (join '' '' ws))"
  by (induction ws rule: induct_list012) (auto simp: word_ok_def list_all_iff join_hd)

lemma join_no_double:
  "list_all word_ok ws \<Longrightarrow> \<not> contains [CHR '' '', CHR '' ''] (join '' '' ws)"
proof (induction ws rule: induct_list012)
  case 1
  then show ?case by simp
next
  case (2 w)
  show ?case
  proof
    assume "contains [CHR '' '', CHR '' ''] (join '' '' [w])"
    then obtain p q where "w = p @ [CHR '' '', CHR '' ''] @ q"
      by (auto simp: contains_iff)
    then have "CHR '' '' \<in> set w" by simp
    with 2 show False by (auto simp: word_ok_def list_all_iff isspace_space)
  qed
next
  case (3 w v ws)
  have w: "\<forall>c\<in>set w. \<not> isspace c" using 3 by (simp add: word_ok_def list_all_iff)
  have rest: "\<not> contains [CHR '' '', CHR '' ''] (join '' '' (v # ws))" using 3 by simp
  have hd: "\<not> isspace (hd (join '' '' (v # ws)))" "join '' '' (v # ws) \<noteq> []"
    using join_hd[of "v # ws"] 3 by simp_all
  have step: "\<not> contains [CHR '' '', CHR '' ''] (u @ CHR '' '' # join '' '' (v # ws))"
    if "\<forall>c\<in>set u. \<not> isspace c" for u
    using that
  proof (induction u)
    case Nil
    obtain x xs where "join '' '' (v # ws) = x # xs" using hd(2) by (cases "join '' '' (v # ws)") auto
    then show ?case using rest hd(1) by (auto simp: isspace_space)
  next
    case (Cons a u)
    then show ?case by (cases u) (auto simp: isspace_space)
  qed
  show ?case using step[OF w] by simp
qed

section \<open>The cleaned answer\<close>

lemma clean_answer_split: "clean_answer r = join '' '' (split_ws r)"
proof -
  have nl: "isspace (CHR 0x0A)" and cr: "isspace (CHR 0x0D)" and sp: "isspace (CHR '' '')"
    by (simp_all add: isspace_def)
  show ?thesis
    by (simp add: clean_answer_def split_ws_def split_from_replace_char[OF nl sp]
        split_from_replace_char[OF cr sp])
qed

lemma clean_answer_facts:
  "(\<forall>c\<in>set (clean_answer r). isspace c \<longrightarrow> c = CHR '' '')"
  "\<not> contains [CHR '' '', CHR '' ''] (clean_answer r)"
  "strip (clean_answer r) = clean_answer r"
  "split_ws (clean_answer r) = split_ws r"
proof -
  let ?ws = "split_ws r"
  have ok: "list_all word_ok ?ws" by (rule split_ws_words)
  show "\<forall>c\<in>set (clean_answer r). isspace c \<longrightarrow> c = CHR '' ''"
    using join_spaces_only[OF ok] by (auto simp: clean_answer_split)
  show "\<not> contains [CHR '' '', CHR '' ''] (clean_answer r)"
    using join_no_double[OF ok] by (simp add: clean_answer_split)
  show "strip (clean_answer r) = clean_answer r"
  proof (rule strip_id)
    assume ne: "clean_answer r \<noteq> []"
    then have "?ws \<noteq> []" by (auto simp: clean_answer_split)
    then show "\<not> isspace (hd (clean_answer r)) \<and> \<not> isspace (last (clean_answer r))"
      using join_hd[OF ok] join_last[OF ok] by (simp add: clean_answer_split)
  qed
  show "split_ws (clean_answer r) = split_ws r"
    using split_from_join[OF ok] by (simp add: clean_answer_split split_ws_def)
qed

text \<open>
  Claim C8. Every answer that \<open>generate_answer\<close> returns is normalised: it holds no line feed
  and no carriage return, its only whitespace characters are spaces and no two spaces are
  adjacent, it has no leading or trailing whitespace (stripping it changes nothing), and its
  words are the words of the service's response, in order.
\<close>

theorem generate_answer_normalized:
  assumes "generate_answer ollama resume_content question field_type = Inr a"
  shows "CHR 0x0A \<notin> set a \<and> CHR 0x0D \<notin> set a
       \<and> (\<forall>c\<in>set a. isspace c \<longrightarrow> c = CHR '' '')
       \<and> \<not> contains [CHR '' '', CHR '' ''] a
       \<and> strip a = a
       \<and> (\<exists>r. ollama (build_prompt resume_content question) = Response r
              \<and> split_ws a = split_ws r)"
proof -
  from assms obtain r where r: "ollama (build_prompt resume_content question) = Response r"
    and a: "a = clean_answer r"
    by (auto simp: generate_answer_def split: ollama_reply.splits)
  have sp: "\<forall>c\<in>set a. isspace c \<longrightarrow> c = CHR '' ''"
    unfolding a by (rule clean_answer_facts(1))
  have nl: "CHR 0x0A \<notin> set a"
  proof
    assume "CHR 0x0A \<in> set a"
    moreover have "isspace (CHR 0x0A)" by (simp add: isspace_def)
    ultimately have "CHR 0x0A = CHR '' ''" using sp by blast
    then show False by simp
  qed
  have cr: "CHR 0x0D \<notin> set a"
  proof
    assume "CHR 0x0D \<in> set a"
    moreover have "isspace (CHR 0x0D)" by (simp add: isspace_def)
    ultimately have "CHR 0x0D = CHR '' ''" using sp by blast
    then show False by simp
  qed
  show ?thesis
    using nl cr sp r clean_answer_facts(2-4)[of r] by (simp add: a)
qed

text \<open>
  A response with a line break, a double space and a trailing space is cleaned to
  \<open>''New York State''\<close>.
\<close>

theorem generate_answer_normalized_witness:
  "generate_answer (\<lambda>p. Response (''New York'' @ [CHR 0x0A] @ ''  State '')) ''resume'' ''City?'' ''text''
     = Inr ''New York State''
   \<and> CHR 0x0A \<notin> set ''New York State''
   \<and> \<not> contains [CHR '' '', CHR '' ''] ''New York State''
   \<and> strip ''New York State'' = ''New York State''"
proof -
  have e: "generate_answer (\<lambda>p. Response (''New York'' @ [CHR 0x0A] @ ''  State '')) ''resume'' ''City?'' ''text''
     = Inr ''New York State''"
    by (simp add: generate_answer_def clean_answer_def replace_char_def split_ws_def isspace_def)
  show ?thesis
    using e generate_answer_normalized[OF e] by simp
qed

section \<open>The answer retry loop\<close>

lemma answer_attempts_result:
  "answer_attempts ai q ft as b = (res, b') \<Longrightarrow>
   (case res of
      Some r \<Rightarrow> \<exists>i<length as. ai (length (ai_log b) + i) q ft = Returns (Some r)
                 \<and> strip r \<noteq> []
                 \<and> (\<forall>j<i. \<not> usable (ai (length (ai_log b) + j) q ft))
                 \<and> length (ai_log b') = length (ai_log b) + i + 1
    | None \<Rightarrow> (\<forall>i<length as. \<not> usable (ai (length (ai_log b) + i) q ft))
              \<and> length (ai_log b') = length (ai_log b) + length as)"
proof (induction as arbitrary: b)
  case Nil
  then show ?case by auto
next
  case (Cons attempt rest)
  let ?n = "length (ai_log b)"
  let ?b1 = "b\<lparr>ai_log := ai_log b @ [(q, ft)]\<rparr>"
  let ?b2 = "if attempt < MAX_RETRIES - 1 then ?b1\<lparr>slept := slept ?b1 @ [RETRY_DELAY]\<rparr> else ?b1"
  have len1: "length (ai_log ?b1) = ?n + 1" and len2: "length (ai_log ?b2) = ?n + 1" by simp_all
  show ?case
  proof (cases "usable (ai ?n q ft)")
    case True
    then obtain a where a: "ai ?n q ft = Returns (Some a)" "strip a \<noteq> []"
      by (auto simp: usable_def split: reply.splits option.splits)
    then have "a \<noteq> []" using strip_Nil by auto
    with a Cons.prems have "res = Some a" "b' = ?b1" by (auto simp: Let_def)
    then show ?thesis using a by (auto intro!: exI[of _ 0])
  next
    case False
    then obtain b2 where rec: "answer_attempts ai q ft rest b2 = (res, b')"
      and l2: "length (ai_log b2) = ?n + 1"
      using Cons.prems
      by (cases "ai ?n q ft") (auto simp: usable_def Let_def strip_Nil split: option.splits if_splits)
    note IH = Cons.IH[OF rec, unfolded l2]
    show ?thesis
    proof (cases res)
      case None
      with IH have all: "\<forall>i<length rest. \<not> usable (ai (?n + 1 + i) q ft)"
        and len: "length (ai_log b') = ?n + 1 + length rest" by auto
      have "\<not> usable (ai (?n + i) q ft)" if "i < length (attempt # rest)" for i
      proof (cases i)
        case 0
        then show ?thesis using False by simp
      next
        case (Suc k)
        then show ?thesis using all that by auto
      qed
      then show ?thesis using None len by auto
    next
      case (Some r)
      with IH obtain i where i: "i < length rest" "ai (?n + 1 + i) q ft = Returns (Some r)"
        "strip r \<noteq> []" "\<forall>j<i. \<not> usable (ai (?n + 1 + j) q ft)"
        "length (ai_log b') = ?n + 1 + i + 1" by auto
      have "\<not> usable (ai (?n + j) q ft)" if "j < Suc i" for j
      proof (cases j)
        case 0
        then show ?thesis using False by simp
      next
        case (Suc k)
        then show ?thesis using i(4) that by auto
      qed
      then show ?thesis using Some i by (auto intro!: exI[of _ "Suc i"])
    qed
  qed
qed


lemma get_fallback_answer_in_table:
  "get_fallback_answer q ft \<in> set fallback_answers"
  by (simp add: get_fallback_answer_def fallback_answers_def Let_def)

lemma fallback_answers_nonempty: "[] \<notin> set fallback_answers"
  by (simp add: fallback_answers_def)

text \<open>
  Claim C10. For every question, field type and behaviour of the answer service,
  \<open>get_answer_with_retry\<close> returns a string that is not empty, after at most \<open>MAX_RETRIES\<close>
  calls of the service. When one of these calls returns a usable answer, the result is the
  first such answer and no further call is made; when every call raises or returns nothing
  but whitespace, the result is the fallback answer. The fallback answer is one of nine fixed
  strings, none of them empty. An exception of the service never leaves the function.
\<close>

theorem get_answer_with_retry_nonempty:
  assumes "get_answer_with_retry ai q ft b = (r, b')"
  shows "r \<noteq> []
    \<and> length (ai_log b') \<le> length (ai_log b) + MAX_RETRIES
    \<and> (if \<exists>i<MAX_RETRIES. usable (ai (length (ai_log b) + i) q ft)
       then \<exists>i<MAX_RETRIES. ai (length (ai_log b) + i) q ft = Returns (Some r)
              \<and> (\<forall>j<i. \<not> usable (ai (length (ai_log b) + j) q ft))
              \<and> length (ai_log b') = length (ai_log b) + i + 1
       else r = get_fallback_answer q ft
              \<and> length (ai_log b') = length (ai_log b) + MAX_RETRIES)
    \<and> get_fallback_answer q ft \<in> set fallback_answers
    \<and> [] \<notin> set fallback_answers"
proof -
  obtain res where att: "answer_attempts ai q ft [0..<MAX_RETRIES] b = (res, b')"
    and r: "r = (case res of Some a \<Rightarrow> a | None \<Rightarrow> get_fallback_answer q ft)"
    using assms by (auto simp: get_answer_with_retry_def split: prod.splits option.splits)
  note R = answer_attempts_result[OF att]
  show ?thesis
  proof (cases res)
    case None
    with R have all: "\<forall>i<MAX_RETRIES. \<not> usable (ai (length (ai_log b) + i) q ft)"
      and len: "length (ai_log b') = length (ai_log b) + MAX_RETRIES" by auto
    have "r \<noteq> []"
      using None r get_fallback_answer_in_table[of q ft] fallback_answers_nonempty by auto
    then show ?thesis
      using all len None r get_fallback_answer_in_table fallback_answers_nonempty by auto
  next
    case (Some a)
    with R obtain i where i: "i < MAX_RETRIES" "ai (length (ai_log b) + i) q ft = Returns (Some a)"
      "strip a \<noteq> []" "\<forall>j<i. \<not> usable (ai (length (ai_log b) + j) q ft)"
      "length (ai_log b') = length (ai_log b) + i + 1" by auto
    have ne: "a \<noteq> []" using i(3) strip_Nil by auto
    have us: "usable (ai (length (ai_log b) + i) q ft)" using i(2,3) by (simp add: usable_def)
    have ex: "\<exists>i<MAX_RETRIES. usable (ai (length (ai_log b) + i) q ft)" using us i(1) by blast
    have "\<exists>i<MAX_RETRIES. ai (length (ai_log b) + i) q ft = Returns (Some r)
              \<and> (\<forall>j<i. \<not> usable (ai (length (ai_log b) + j) q ft))
              \<and> length (ai_log b') = length (ai_log b) + i + 1"
      using i Some r by auto
    then show ?thesis
      using ex ne Some r i(1,5) get_fallback_answer_in_table fallback_answers_nonempty
      by (simp del: set_simps)
  qed
qed

text \<open>
  The service raises, then answers two spaces, then \<^verbatim>\<open>None\<close>: the phone fallback is
  returned after three calls and one sleep.
\<close>

theorem get_answer_with_retry_nonempty_witness:
  "get_answer_with_retry
     (\<lambda>n q ft. if n = 0 then Raises else if n = 1 then Returns (Some ''  '') else Returns None)
     ''Your phone number'' ''numeric'' new_bot
   = (''5551234567'', new_bot\<lparr>ai_log := replicate 3 (''Your phone number'', ''numeric''), slept := [2]\<rparr>)
   \<and> ''5551234567'' = get_fallback_answer ''Your phone number'' ''numeric''
   \<and> ''5551234567'' \<in> set fallback_answers"
proof -
  have e: "get_answer_with_retry
     (\<lambda>n q ft. if n = 0 then Raises else if n = 1 then Returns (Some ''  '') else Returns None)
     ''Your phone number'' ''numeric'' new_bot
   = (''5551234567'', new_bot\<lparr>ai_log := replicate 3 (''Your phone number'', ''numeric''), slept := [2]\<rparr>)"
    by code_simp
  have f: "get_fallback_answer ''Your phone number'' ''numeric'' = ''5551234567''"
    by code_simp
  show ?thesis
    using e f get_answer_with_retry_nonempty[OF e] by simp
qed

section \<open>Numeric normalization of a fraction\<close>

lemma is_number_no_slash: "is_number a \<Longrightarrow> CHR ''/'' \<notin> set a"
  by (auto simp: is_number_def list_all_iff)

text \<open>
  Claim C9. For numeric components \<open>a\<close> and \<open>b\<close>, normalising \<open>a/b\<close> yields exactly \<open>a\<close>.
  (The normalisation is the one modelled from the specification above.)
\<close>

theorem normalize_numeric_fraction:
  assumes "is_number a" and "is_number b"
  shows "normalize_numeric (a @ ''/'' @ b) = a"
proof -
  have ns: "CHR ''/'' \<notin> set a" using assms(1) by (rule is_number_no_slash)
  have "takeWhile (\<lambda>c. c \<noteq> CHR ''/'') (a @ ''/'' @ b) = a"
    and "dropWhile (\<lambda>c. c \<noteq> CHR ''/'') (a @ ''/'' @ b) = ''/'' @ b"
    using ns by (induction a) auto
  then show ?thesis using assms by (simp add: normalize_numeric_def)
qed

text \<open>
\<open>''3.5/4.0''\<close> is reduced to \<open>''3.5''\<close>.
\<close>

theorem normalize_numeric_fraction_witness:
  "is_number ''3.5'' \<and> is_number ''4.0'' \<and> normalize_numeric ''3.5/4.0'' = ''3.5''"
proof -
  have a: "is_number ''3.5''" and b: "is_number ''4.0''" by (simp_all add: is_number_def)
  show ?thesis using a b normalize_numeric_fraction[OF a b] by simp
qed

section \<open>The modal locator\<close>

lemma length_MODAL_SELECTORS: "length MODAL_SELECTORS = 3"
  by (simp add: MODAL_SELECTORS_def)

lemma less_3_cases: "t < (3::nat) \<longleftrightarrow> t = 0 \<or> t = 1 \<or> t = 2"
  by arith

lemma all_less_3: "(\<forall>t<(3::nat). P t) \<longleftrightarrow> P 0 \<and> P 1 \<and> P 2"
  unfolding less_3_cases by blast

lemma try_selectors_result:
  "try_selectors page sels b = (res, b') \<Longrightarrow>
   stats b' = stats b \<and> ai_log b' = ai_log b \<and> slept b' = slept b \<and>
   (case res of
      None \<Rightarrow> (\<forall>i<length sels. page (length (page_log b) + i) (sels ! i) = None)
               \<and> page_log b' = page_log b @ map Query sels
    | Some m \<Rightarrow> \<exists>i<length sels. page (length (page_log b) + i) (sels ! i) = Some m
               \<and> (\<forall>j<i. page (length (page_log b) + j) (sels ! j) = None)
               \<and> page_log b' = page_log b @ map Query (take (Suc i) sels))"
proof (induction sels arbitrary: b)
  case Nil
  then show ?case by auto
next
  case (Cons sel rest)
  let ?n = "length (page_log b)"
  let ?b1 = "b\<lparr>page_log := page_log b @ [Query sel]\<rparr>"
  show ?case
  proof (cases "page ?n sel")
    case (Some m)
    with Cons.prems have "res = Some m" "b' = ?b1" by (auto simp: Let_def)
    then show ?thesis using Some by (auto intro!: exI[of _ 0])
  next
    case None
    with Cons.prems have rec: "try_selectors page rest ?b1 = (res, b')" by (simp add: Let_def)
    note IH = Cons.IH[OF rec]
    show ?thesis
    proof (cases res)
      case N: None
      with IH have all: "\<forall>i<length rest. page (?n + 1 + i) (rest ! i) = None"
        and log: "page_log b' = page_log b @ map Query (sel # rest)" by auto
      have "page (?n + i) ((sel # rest) ! i) = None" if "i < length (sel # rest)" for i
        using that all None by (cases i) auto
      then show ?thesis using N log IH by auto
    next
      case S: (Some m)
      with IH obtain i where i: "i < length rest" "page (?n + 1 + i) (rest ! i) = Some m"
        "\<forall>j<i. page (?n + 1 + j) (rest ! j) = None"
        "page_log b' = page_log b @ map Query (take (Suc (Suc i)) (sel # rest))" by auto
      have "page (?n + j) ((sel # rest) ! j) = None" if "j < Suc i" for j
        using that i(3) None by (cases j) auto
      then show ?thesis using S i IH by (auto intro!: exI[of _ "Suc i"])
    qed
  qed
qed

lemma modal_attempts_unroll:
  "get_modal_with_retry page b =
     (case try_selectors page MODAL_SELECTORS b of
        (Some m, b1) \<Rightarrow> (Some m, b1)
      | (None, b1) \<Rightarrow>
         (case try_selectors page MODAL_SELECTORS (b1\<lparr>page_log := page_log b1 @ [Wait RETRY_DELAY]\<rparr>) of
            (Some m, b2) \<Rightarrow> (Some m, b2)
          | (None, b2) \<Rightarrow>
             (case try_selectors page MODAL_SELECTORS (b2\<lparr>page_log := page_log b2 @ [Wait RETRY_DELAY]\<rparr>) of
                (Some m, b3) \<Rightarrow> (Some m, b3)
              | (None, b3) \<Rightarrow> (None, b3))))"
proof -
  have "[0..<MAX_RETRIES] = [0, 1, 2]"
    by (simp add: MAX_RETRIES_def upt_rec)
  then show ?thesis
    by (simp add: get_modal_with_retry_def MAX_RETRIES_def split: prod.splits option.splits)
qed

lemma locate_result:
  assumes run: "get_modal_with_retry page b = (res, b')"
  shows "stats b' = stats b"
    and "res = None \<Longrightarrow>
           (\<forall>t<MAX_RETRIES. \<forall>i<length MODAL_SELECTORS.
              page (length (page_log b) + t * (length MODAL_SELECTORS + 1) + i) (MODAL_SELECTORS ! i) = None)
           \<and> page_log b' = page_log b @ locate_schedule"
    and "res = Some m \<Longrightarrow>
           \<exists>t<MAX_RETRIES. \<exists>i<length MODAL_SELECTORS. found_at page (length (page_log b)) t i m
              \<and> page_log b' = page_log b @ take (t * (length MODAL_SELECTORS + 1) + i + 1) locate_schedule"
proof -
  let ?MS = MODAL_SELECTORS
  let ?n = "length (page_log b)"
  let ?w = "\<lambda>x. x\<lparr>page_log := page_log x @ [Wait RETRY_DELAY]\<rparr>"
  note L = length_MODAL_SELECTORS
  obtain r1 b1 where t1: "try_selectors page ?MS b = (r1, b1)"
    by (cases "try_selectors page ?MS b") auto
  obtain r2 b2 where t2: "try_selectors page ?MS (?w b1) = (r2, b2)"
    by (cases "try_selectors page ?MS (?w b1)") auto
  obtain r3 b3 where t3: "try_selectors page ?MS (?w b2) = (r3, b3)"
    by (cases "try_selectors page ?MS (?w b2)") auto
  note R1 = try_selectors_result[OF t1]
  note R2 = try_selectors_result[OF t2]
  note R3 = try_selectors_result[OF t3]
  have sched: "locate_schedule = map Query ?MS @ Wait RETRY_DELAY # map Query ?MS
                 @ Wait RETRY_DELAY # map Query ?MS"
    by (simp add: locate_schedule_def)
  have gm: "get_modal_with_retry page b = (case r1 of Some m \<Rightarrow> (Some m, b1) | None \<Rightarrow>
               (case r2 of Some m \<Rightarrow> (Some m, b2) | None \<Rightarrow>
               (case r3 of Some m \<Rightarrow> (Some m, b3) | None \<Rightarrow> (None, b3))))"
    using t1 t2 t3 by (cases r1; cases r2; cases r3) (simp_all add: modal_attempts_unroll)
  have res: "(res, b') = (case r1 of Some m \<Rightarrow> (Some m, b1) | None \<Rightarrow>
               (case r2 of Some m \<Rightarrow> (Some m, b2) | None \<Rightarrow>
               (case r3 of Some m \<Rightarrow> (Some m, b3) | None \<Rightarrow> (None, b3))))"
    using run unfolding gm by (rule sym)
  show "stats b' = stats b"
    using res R1 R2 R3 by (auto split: option.splits)
  {
    assume "res = None"
    with res have n: "r1 = None" "r2 = None" "r3 = None" "b' = b3"
      by (auto split: option.splits)
    have l1: "page_log b1 = page_log b @ map Query ?MS"
      and q1: "\<forall>i<3. page (?n + i) (?MS ! i) = None"
      using R1 n L by auto
    have l2: "page_log b2 = page_log b @ map Query ?MS @ Wait RETRY_DELAY # map Query ?MS"
      and q2: "\<forall>i<3. page (?n + 4 + i) (?MS ! i) = None"
      using R2 n L l1 by (auto simp: add.assoc)
    have l3: "page_log b3 = page_log b @ locate_schedule"
      and q3: "\<forall>i<3. page (?n + 8 + i) (?MS ! i) = None"
      using R3 n L l2 sched by (auto simp: add.assoc)
    show "(\<forall>t<MAX_RETRIES. \<forall>i<length ?MS. page (?n + t * (length ?MS + 1) + i) (?MS ! i) = None)
           \<and> page_log b' = page_log b @ locate_schedule"
      using q1 q2 q3 l3 n(4) by (simp add: MAX_RETRIES_def L all_less_3[where P = "\<lambda>t. \<forall>i<3. _ t i"])
  }
  {
    assume s: "res = Some m"
    let ?goal = "\<exists>t<MAX_RETRIES. \<exists>i<length ?MS. found_at page ?n t i m
              \<and> page_log b' = page_log b @ take (t * (length ?MS + 1) + i + 1) locate_schedule"
    have fin: "?goal" if "t < 3" "i < 3" "found_at page ?n t i m"
      "page_log b' = page_log b @ take (t * (length ?MS + 1) + i + 1) locate_schedule" for t i
      using that L unfolding MAX_RETRIES_def by auto
    show ?goal
    proof (cases r1)
      case (Some m1)
      with res s have e: "m1 = m" "b' = b1" by auto
      from R1 Some e obtain i where i: "i < 3" "page (?n + i) (?MS ! i) = Some m"
        "\<forall>j<i. page (?n + j) (?MS ! j) = None"
        "page_log b1 = page_log b @ map Query (take (Suc i) ?MS)" using L by auto
      have "found_at page ?n 0 i m" using i by (simp add: found_at_def)
      moreover have "page_log b' = page_log b @ take (0 * (length ?MS + 1) + i + 1) locate_schedule"
        using i e L by (simp add: sched take_map take_Cons')
      ultimately show ?thesis using fin[of 0 i] i(1) by simp
    next
      case n1: None
      have l1: "page_log b1 = page_log b @ map Query ?MS"
        and q1: "\<forall>i<3. page (?n + i) (?MS ! i) = None"
        using R1 n1 L by auto
      show ?thesis
      proof (cases r2)
        case (Some m2)
        with res s n1 have e: "m2 = m" "b' = b2" by auto
        from R2 Some e l1 L obtain i where i: "i < 3" "page (?n + 4 + i) (?MS ! i) = Some m"
          "\<forall>j<i. page (?n + 4 + j) (?MS ! j) = None"
          "page_log b2 = page_log b @ map Query ?MS @ Wait RETRY_DELAY # map Query (take (Suc i) ?MS)"
          by (auto simp: add.assoc)
        have "found_at page ?n 1 i m" using i q1 by (auto simp: found_at_def L)
        moreover have "page_log b' = page_log b @ take (1 * (length ?MS + 1) + i + 1) locate_schedule"
          using i e L by (simp add: sched take_map take_Cons')
        ultimately show ?thesis using fin[of 1 i] i(1) by simp
      next
        case n2: None
        have l2: "page_log b2 = page_log b @ map Query ?MS @ Wait RETRY_DELAY # map Query ?MS"
          and q2: "\<forall>i<3. page (?n + 4 + i) (?MS ! i) = None"
          using R2 n2 L l1 by (auto simp: add.assoc)
        show ?thesis
        proof (cases r3)
          case None
          with res s n1 n2 show ?thesis by simp
        next
          case (Some m3)
          with res s n1 n2 have e: "m3 = m" "b' = b3" by auto
          from R3 Some e l2 L obtain i where i: "i < 3" "page (?n + 8 + i) (?MS ! i) = Some m"
            "\<forall>j<i. page (?n + 8 + j) (?MS ! j) = None"
            "page_log b3 = page_log b @ map Query ?MS @ Wait RETRY_DELAY # map Query ?MS
                @ Wait RETRY_DELAY # map Query (take (Suc i) ?MS)"
            by (auto simp: add.assoc)
          have "found_at page ?n 2 i m"
            unfolding found_at_def L
          proof (intro conjI allI impI)
            show "page (?n + 2 * (3 + 1) + i) (?MS ! i) = Some m" using i(2) by simp
          next
            fix t' i' :: nat
            assume a: "i' < 3 \<and> (t' < 2 \<or> t' = 2 \<and> i' < i)"
            then consider "t' = 0" | "t' = 1" | "t' = 2" "i' < i" by arith
            then show "page (?n + t' * (3 + 1) + i') (?MS ! i') = None"
              using a q1 q2 i(3) by cases auto
          qed
          moreover have "page_log b' = page_log b @ take (2 * (length ?MS + 1) + i + 1) locate_schedule"
            using i e L by (simp add: sched take_map take_Cons')
          ultimately show ?thesis using fin[of 2 i] i(1) by simp
        qed
      qed
    qed
  }
qed

text \<open>
  Claim C7. \<open>get_modal_with_retry\<close> returns \<^verbatim>\<open>None\<close> exactly when every selector of the
  list missed in each of the \<open>MAX_RETRIES = 3\<close> attempts; its events are then the three
  passes over the whole selector list with one sleep of \<open>RETRY_DELAY = 2\<close> between two
  attempts and none after the last. A handle that is returned was found by the first query
  that did not miss, and the events stop there. The statistics are not touched by the
  locator. When nothing is found, the attempt (by the driver modelled from the
  specification) ends Aborted with the failure counter one higher, no error is raised, and
  the run goes on with the remaining jobs.
\<close>

theorem locate_not_found:
  assumes run: "get_modal_with_retry page b = (res, b')"
  shows "(res = None \<longleftrightarrow>
           (\<forall>t<MAX_RETRIES. \<forall>i<length MODAL_SELECTORS.
              page (length (page_log b) + t * (length MODAL_SELECTORS + 1) + i)
                   (MODAL_SELECTORS ! i) = None))
    \<and> (res = None \<longrightarrow> page_log b' = page_log b @ locate_schedule)
    \<and> (\<forall>m. res = Some m \<longrightarrow>
           (\<exists>t<MAX_RETRIES. \<exists>i<length MODAL_SELECTORS.
              found_at page (length (page_log b)) t i m
              \<and> page_log b' = page_log b
                   @ take (t * (length MODAL_SELECTORS + 1) + i + 1) locate_schedule))
    \<and> stats b' = stats b
    \<and> MAX_RETRIES = 3 \<and> RETRY_DELAY = 2
    \<and> (res = None \<longrightarrow>
         (\<forall>MAX_STEPS modal jobs.
            apply_to_job MAX_STEPS page modal b = (Aborted, b'\<lparr>stats := count_failed (stats b)\<rparr>)
            \<and> applications_failed (count_failed (stats b)) = applications_failed (stats b) + 1
            \<and> apply_to_jobs MAX_STEPS ((page, modal) # jobs) b =
                (Aborted # fst (apply_to_jobs MAX_STEPS jobs (b'\<lparr>stats := count_failed (stats b)\<rparr>)),
                 snd (apply_to_jobs MAX_STEPS jobs (b'\<lparr>stats := count_failed (stats b)\<rparr>)))))"
proof -
  note R = locate_result[OF run]
  let ?all = "\<forall>t<MAX_RETRIES. \<forall>i<length MODAL_SELECTORS.
              page (length (page_log b) + t * (length MODAL_SELECTORS + 1) + i)
                   (MODAL_SELECTORS ! i) = None"
  have A: "res = None \<longleftrightarrow> ?all"
  proof
    assume "res = None"
    then show ?all using R(2) by blast
  next
    assume all: ?all
    show "res = None"
    proof (cases res)
      case None
      then show ?thesis .
    next
      case (Some m)
      then obtain t i where "t < MAX_RETRIES" "i < length MODAL_SELECTORS"
        "found_at page (length (page_log b)) t i m" using R(3) by blast
      then have "page (length (page_log b) + t * (length MODAL_SELECTORS + 1) + i)
                   (MODAL_SELECTORS ! i) = Some m"
        and "page (length (page_log b) + t * (length MODAL_SELECTORS + 1) + i)
                   (MODAL_SELECTORS ! i) = None"
        using all by (auto simp: found_at_def)
      then show ?thesis by simp
    qed
  qed
  have B: "res = None \<longrightarrow> page_log b' = page_log b @ locate_schedule"
    using R(2) by blast
  have C: "\<forall>m. res = Some m \<longrightarrow>
           (\<exists>t<MAX_RETRIES. \<exists>i<length MODAL_SELECTORS.
              found_at page (length (page_log b)) t i m
              \<and> page_log b' = page_log b
                   @ take (t * (length MODAL_SELECTORS + 1) + i + 1) locate_schedule)"
    using R(3) by blast
  have D: "stats b' = stats b" by (rule R(1))
  have E: "MAX_RETRIES = 3 \<and> RETRY_DELAY = 2"
    by (simp add: MAX_RETRIES_def RETRY_DELAY_def)
  have F: "apply_to_job MAX_STEPS page modal b = (Aborted, b'\<lparr>stats := count_failed (stats b)\<rparr>)
            \<and> applications_failed (count_failed (stats b)) = applications_failed (stats b) + 1
            \<and> apply_to_jobs MAX_STEPS ((page, modal) # jobs) b =
                (Aborted # fst (apply_to_jobs MAX_STEPS jobs (b'\<lparr>stats := count_failed (stats b)\<rparr>)),
                 snd (apply_to_jobs MAX_STEPS jobs (b'\<lparr>stats := count_failed (stats b)\<rparr>)))"
    if "res = None" for MAX_STEPS modal jobs
    using that run D
    by (simp add: apply_to_job_def count_failed_def split: prod.splits)
  show ?thesis using A B C D E F by blast
qed

text \<open>
  On a page where no selector ever matches, the locator gives up after the full schedule, and
  the job is counted as failed.
\<close>

theorem locate_not_found_witness:
  "get_modal_with_retry (\<lambda>n sel. None) new_bot = (None, new_bot\<lparr>page_log := locate_schedule\<rparr>)
   \<and> page_log (new_bot\<lparr>page_log := locate_schedule\<rparr>) = page_log new_bot @ locate_schedule
   \<and> apply_to_job 5 (\<lambda>n sel. None) (\<lambda>k. error_page) new_bot
       = (Aborted, new_bot\<lparr>page_log := locate_schedule, stats := count_failed (stats new_bot)\<rparr>)"
proof -
  have e: "get_modal_with_retry (\<lambda>n sel. None) new_bot = (None, new_bot\<lparr>page_log := locate_schedule\<rparr>)"
    by code_simp
  show ?thesis using e locate_not_found[OF e] by simp
qed

section \<open>Scoping of the label lookup\<close>

text \<open>
  Claim C1. The claim fails on the code. On \<open>leaky_page\<close> the modal is element 2 and its only
  text input is element 3, with id \<open>q1\<close> and no \<^verbatim>\<open>aria-label\<close>. Deriving the label of the
  input queries the whole document for \<^verbatim>\<open>label[for="q1"]\<close> and reads the text of element 1,
  the search label, which is not inside the modal. The input therefore gets the label of the
  page's search bar, the skip rule applies to it, and the pass over the modal's text inputs
  leaves the application field empty.
\<close>

theorem label_lookup_leaves_modal:
  "query_selector_all_in leaky_page 2 is_text_input = [3]
   \<and> get_field_label_traced leaky_page 3 =
       (''Search by title, skill, or company'',
        [Read 3, Read 3, PageQuery (label_for_selector ''q1''), Read 1])
   \<and> \<not> inside leaky_page 2 1
   \<and> any_in SKIP_KEYWORDS (lower (get_field_label leaky_page 3))
   \<and> fill_text_inputs yes_service 2 (leaky_page, new_bot) = (leaky_page, new_bot)"
  by code_simp

section \<open>The skip rule\<close>


















section \<open>Fields that are filled already\<close>




section \<open>Consent keywords\<close>




section \<open>Consecutive errors\<close>

lemma handle_step_cases:
  assumes "handle_step ob a = (r, a')"
  shows "step a' = step a + 1"
    and "enabled (submit_btn ob) \<Longrightarrow>
           r = Some Submitted \<and> fill_passes a' = fill_passes a
           \<and> consecutive_errors a' = consecutive_errors a"
    and "\<not> enabled (submit_btn ob) \<Longrightarrow>
           fill_passes a' = fill_passes a + 1
           \<and> consecutive_errors a' = (if check_for_errors ob then consecutive_errors a + 1 else 0)
           \<and> r = (if check_for_errors ob \<and> 3 \<le> consecutive_errors a + 1 then Some Aborted else None)"
    and "run_stats a' = (if r = Some Aborted then count_failed (run_stats a) else run_stats a)"
  using assms by (auto simp: handle_step_def navigate_def Let_def split: if_splits)

lemma abort_by_now:
  assumes "\<not> enabled (submit_btn (modal (Suc n)))" "check_for_errors (modal (Suc n))" "n < M" "2 \<le> c"
  shows "abort_by M modal n c (Suc n)"
  unfolding abort_by_def using assms
  by (auto simp: less_Suc_eq_le le_Suc_eq)

lemma abort_by_shift:
  assumes ns: "\<not> enabled (submit_btn (modal (Suc n)))"
    and c': "c' = (if check_for_errors (modal (Suc n)) then c + 1 else 0)"
    and na: "\<not> (check_for_errors (modal (Suc n)) \<and> 3 \<le> c + 1)"
  shows "abort_by M modal n c k \<longleftrightarrow> abort_by M modal (Suc n) c' k"
proof
  assume A: "abort_by M modal n c k"
  then have k: "n < k" "k \<le> M" "n + 3 \<le> k + c"
    and sub: "\<And>j. n < j \<Longrightarrow> j \<le> k \<Longrightarrow> \<not> enabled (submit_btn (modal j))"
    and err: "\<And>j. n < j \<Longrightarrow> j \<le> k \<Longrightarrow> k < j + 3 \<Longrightarrow> check_for_errors (modal j)"
    by (auto simp: abort_by_def)
  show "abort_by M modal (Suc n) c' k"
  proof (cases "check_for_errors (modal (Suc n))")
    case True
    with na have "c \<le> 1" by simp
    with k have "Suc n < k" by simp
    then show ?thesis
      unfolding abort_by_def using k sub err c' True by auto
  next
    case False
    have "\<not> (k < Suc n + 3)"
    proof
      assume "k < Suc n + 3"
      then have "check_for_errors (modal (Suc n))" using err[of "Suc n"] k by simp
      with False show False by simp
    qed
    then have "Suc n + 3 \<le> k" by simp
    then show ?thesis
      unfolding abort_by_def using k sub err c' False by auto
  qed
next
  assume A: "abort_by M modal (Suc n) c' k"
  then have k: "Suc n < k" "k \<le> M" "Suc n + 3 \<le> k + c'"
    and sub: "\<And>j. Suc n < j \<Longrightarrow> j \<le> k \<Longrightarrow> \<not> enabled (submit_btn (modal j))"
    and err: "\<And>j. Suc n < j \<Longrightarrow> j \<le> k \<Longrightarrow> k < j + 3 \<Longrightarrow> check_for_errors (modal j)"
    by (auto simp: abort_by_def)
  have sub': "\<not> enabled (submit_btn (modal j))" if "n < j" "j \<le> k" for j
    using that sub[of j] ns by (cases "j = Suc n") auto
  have err': "check_for_errors (modal j)" if "n < j" "j \<le> k" "k < j + 3" for j
  proof (cases "j = Suc n")
    case True
    show ?thesis
    proof (rule ccontr)
      assume "\<not> check_for_errors (modal j)"
      with True c' have "c' = 0" by simp
      with k that True show False by simp
    qed
  next
    case False
    then show ?thesis using that err[of j] by simp
  qed
  have "n + 3 \<le> k + c" using k c' by (auto split: if_splits)
  then show "abort_by M modal n c k"
    unfolding abort_by_def using k sub' err' by auto
qed

lemma handle_steps_aborted:
  "handle_steps M modal a = (Aborted, a') \<Longrightarrow> consecutive_errors a \<le> 2 \<Longrightarrow>
   abort_by M modal (step a) (consecutive_errors a) (step a')
   \<and> consecutive_errors a' = 3
   \<and> fill_passes a' + step a = fill_passes a + step a'
   \<and> run_stats a' = count_failed (run_stats a)"
proof (induction M modal a rule: handle_steps.induct)
  case (1 M modal a)
  from "1.prems"(1) have lt: "step a < M"
    by (subst (asm) handle_steps.simps) (auto split: if_splits)
  obtain r a1 where hs: "handle_step (modal (step a + 1)) a = (r, a1)"
    by (cases "handle_step (modal (step a + 1)) a") auto
  note H = handle_step_cases[OF hs]
  show ?case
  proof (cases r)
    case None
    with hs lt "1.prems"(1) have rec: "handle_steps M modal a1 = (Aborted, a')"
      by (subst (asm) handle_steps.simps) simp
    have ns: "\<not> enabled (submit_btn (modal (Suc (step a))))"
      using H(2) None by auto
    have na: "\<not> (check_for_errors (modal (Suc (step a))) \<and> 3 \<le> consecutive_errors a + 1)"
      using H(3) ns None by (auto split: if_splits)
    have c1: "consecutive_errors a1 =
        (if check_for_errors (modal (Suc (step a))) then consecutive_errors a + 1 else 0)"
      using H(3) ns by simp
    have le: "consecutive_errors a1 \<le> 2" using c1 na "1.prems"(2) by (auto split: if_splits)
    have IH: "abort_by M modal (step a1) (consecutive_errors a1) (step a')
      \<and> consecutive_errors a' = 3 \<and> fill_passes a' + step a1 = fill_passes a1 + step a'
      \<and> run_stats a' = count_failed (run_stats a1)"
      using "1.IH"[OF lt hs[symmetric] _ rec le] None by simp
    have "abort_by M modal (step a) (consecutive_errors a) (step a')"
      using abort_by_shift[where modal = modal and n = "step a" and c = "consecutive_errors a"
          and c' = "consecutive_errors a1" and M = M and k = "step a'", OF ns c1 na] IH H(1)
      by simp
    moreover have "fill_passes a' + step a = fill_passes a + step a'"
      using IH H(1) H(3) ns by simp
    ultimately show ?thesis using IH H(4) None by simp
  next
    case (Some out)
    with hs lt "1.prems"(1) have out: "out = Aborted" and a': "a' = a1"
      by (subst (asm) handle_steps.simps, simp)+
    have ns: "\<not> enabled (submit_btn (modal (Suc (step a))))"
      using H(2) Some out by auto
    have ab: "check_for_errors (modal (Suc (step a)))" "3 \<le> consecutive_errors a + 1"
      using H(3) ns Some by (auto split: if_splits)
    have "abort_by M modal (step a) (consecutive_errors a) (Suc (step a))"
      using abort_by_now[where modal = modal and n = "step a" and M = M
          and c = "consecutive_errors a", OF ns ab(1) lt] ab(2) by simp
    then show ?thesis using H ns ab a' "1.prems"(2) by simp
  qed
qed

lemma handle_steps_abort_by:
  "abort_by M modal (step a) (consecutive_errors a) k \<Longrightarrow> consecutive_errors a \<le> 2 \<Longrightarrow>
   fst (handle_steps M modal a) = Aborted"
proof (induction M modal a rule: handle_steps.induct)
  case (1 M modal a)
  from "1.prems"(1) have lt: "step a < M" by (auto simp: abort_by_def)
  obtain r a1 where hs: "handle_step (modal (step a + 1)) a = (r, a1)"
    by (cases "handle_step (modal (step a + 1)) a") auto
  note H = handle_step_cases[OF hs]
  have ns: "\<not> enabled (submit_btn (modal (Suc (step a))))"
    using "1.prems"(1) by (auto simp: abort_by_def)
  show ?case
  proof (cases "check_for_errors (modal (Suc (step a))) \<and> 3 \<le> consecutive_errors a + 1")
    case True
    then have "r = Some Aborted" using H(3) ns by simp
    then show ?thesis using hs lt by (subst handle_steps.simps) simp
  next
    case False
    then have r: "r = None" using H(3) ns by simp
    have c1: "consecutive_errors a1 =
        (if check_for_errors (modal (Suc (step a))) then consecutive_errors a + 1 else 0)"
      using H(3) ns by simp
    have le: "consecutive_errors a1 \<le> 2" using c1 False "1.prems"(2) by (auto split: if_splits)
    have "abort_by M modal (step a1) (consecutive_errors a1) k"
      using abort_by_shift[where modal = modal and n = "step a" and c = "consecutive_errors a"
          and c' = "consecutive_errors a1" and M = M and k = k, OF ns c1 False] "1.prems"(1) H(1)
      by simp
    then have "fst (handle_steps M modal a1) = Aborted"
      using "1.IH"[OF lt hs[symmetric] _ _ le] r by simp
    then show ?thesis using hs lt r by (subst handle_steps.simps) simp
  qed
qed

lemma handle_steps_not_aborted:
  "handle_steps M modal a = (out, a') \<Longrightarrow> consecutive_errors a \<le> 2 \<Longrightarrow> out \<noteq> Aborted \<Longrightarrow>
   consecutive_errors a' \<le> 2"
proof (induction M modal a rule: handle_steps.induct)
  case (1 M modal a)
  show ?case
  proof (cases "step a < M")
    case False
    with "1.prems" show ?thesis by (subst (asm) handle_steps.simps) auto
  next
    case lt: True
    obtain r a1 where hs: "handle_step (modal (step a + 1)) a = (r, a1)"
      by (cases "handle_step (modal (step a + 1)) a") auto
    note H = handle_step_cases[OF hs]
    show ?thesis
    proof (cases r)
      case None
      with hs lt "1.prems"(1) have rec: "handle_steps M modal a1 = (out, a')"
        by (subst (asm) handle_steps.simps) simp
      have ns: "\<not> enabled (submit_btn (modal (Suc (step a))))" using H(2) None by auto
      have le: "consecutive_errors a1 \<le> 2"
        using H(3) ns None "1.prems"(2) by (auto split: if_splits)
      show ?thesis using "1.IH"[OF lt hs[symmetric] _ rec le] None "1.prems"(3) by simp
    next
      case (Some o1)
      with hs lt "1.prems"(1) have o: "out = o1" and a': "a' = a1"
        by (subst (asm) handle_steps.simps, simp)+
      show ?thesis
      proof (cases "enabled (submit_btn (modal (Suc (step a))))")
        case True
        then show ?thesis using H(2) a' "1.prems"(2) by simp
      next
        case False
        then show ?thesis using H(3) Some o "1.prems"(3) by (auto split: if_splits)
      qed
    qed
  qed
qed

lemma handle_steps_other:
  "handle_steps M modal a = (out, a') \<Longrightarrow> out \<noteq> Aborted \<Longrightarrow> step a \<le> M \<Longrightarrow>
   run_stats a' = run_stats a \<and> step a' \<le> M \<and> (out = TimedOut \<longrightarrow> step a' = M)"
proof (induction M modal a rule: handle_steps.induct)
  case (1 M modal a)
  show ?case
  proof (cases "step a < M")
    case False
    with "1.prems" show ?thesis by (subst (asm) handle_steps.simps) auto
  next
    case lt: True
    obtain r a1 where hs: "handle_step (modal (step a + 1)) a = (r, a1)"
      by (cases "handle_step (modal (step a + 1)) a") auto
    note H = handle_step_cases[OF hs]
    show ?thesis
    proof (cases r)
      case None
      with hs lt "1.prems"(1) have rec: "handle_steps M modal a1 = (out, a')"
        by (subst (asm) handle_steps.simps) simp
      have "step a1 \<le> M" using H(1) lt by simp
      then show ?thesis using "1.IH"[OF lt hs[symmetric] _ rec "1.prems"(2)] None H(4) by simp
    next
      case (Some o1)
      with hs lt "1.prems"(1) have o: "out = o1" and a': "a' = a1"
        by (subst (asm) handle_steps.simps, simp)+
      have "o1 = Submitted" using H(2,3) Some o "1.prems"(2)
        by (cases "enabled (submit_btn (modal (step a + 1)))") (auto split: if_splits)
      then show ?thesis using H(1) H(4) Some o a' lt by simp
    qed
  qed
qed

text \<open>
  Claim C2. In every pass that reaches the error check, \<open>consecutive_errors\<close> goes up by one
  when an error is detected and back to 0 when none is. It never exceeds 3, and the attempt
  ends Aborted exactly when it is 3. In terms of what the modal shows: the attempt is Aborted
  exactly when some pass \<open>k\<close> within the step budget is reached without an enabled submit
  button and passes \<open>k - 2\<close>, \<open>k - 1\<close> and \<open>k\<close> all report an error. The abort happens in the
  pass of the third consecutive error: that pass is the last one that filled the fields, and
  the failure is counted once.
\<close>

theorem consecutive_errors_abort:
  assumes run: "handle_application_modal MAX_STEPS modal s = (out, a)"
  shows "(\<forall>ob a0 r a1. handle_step ob a0 = (r, a1) \<and> \<not> enabled (submit_btn ob) \<longrightarrow>
            consecutive_errors a1 = (if check_for_errors ob then consecutive_errors a0 + 1 else 0))
    \<and> consecutive_errors a \<le> 3
    \<and> (out = Aborted \<longleftrightarrow> consecutive_errors a = 3)
    \<and> (out = Aborted \<longleftrightarrow>
         (\<exists>k. 3 \<le> k \<and> k \<le> MAX_STEPS
            \<and> (\<forall>j. 1 \<le> j \<and> j \<le> k \<longrightarrow> \<not> enabled (submit_btn (modal j)))
            \<and> check_for_errors (modal (k - 2)) \<and> check_for_errors (modal (k - 1))
            \<and> check_for_errors (modal k)))
    \<and> (out = Aborted \<longrightarrow>
          3 \<le> step a
          \<and> check_for_errors (modal (step a - 2)) \<and> check_for_errors (modal (step a - 1))
          \<and> check_for_errors (modal (step a))
          \<and> fill_passes a = step a
          \<and> run_stats a = count_failed s)"
proof -
  let ?a0 = "new_attempt s"
  have hs: "handle_steps MAX_STEPS modal ?a0 = (out, a)"
    using run by (simp add: handle_application_modal_def)
  have init: "step ?a0 = 0" "consecutive_errors ?a0 = 0" "fill_passes ?a0 = 0" "run_stats ?a0 = s"
    by (simp_all add: new_attempt_def)
  have P1: "\<forall>ob a0 r a1. handle_step ob a0 = (r, a1) \<and> \<not> enabled (submit_btn ob) \<longrightarrow>
            consecutive_errors a1 = (if check_for_errors ob then consecutive_errors a0 + 1 else 0)"
    using handle_step_cases(3) by blast
  have ab: "abort_by MAX_STEPS modal 0 0 (step a) \<and> consecutive_errors a = 3
      \<and> fill_passes a = step a \<and> run_stats a = count_failed s" if "out = Aborted"
    using handle_steps_aborted[of MAX_STEPS modal ?a0 a] hs that init by simp
  have nab: "consecutive_errors a \<le> 2" if "out \<noteq> Aborted"
    using handle_steps_not_aborted[OF hs _ that] init by simp
  have char: "abort_by MAX_STEPS modal 0 0 k \<longleftrightarrow>
      3 \<le> k \<and> k \<le> MAX_STEPS
      \<and> (\<forall>j. 1 \<le> j \<and> j \<le> k \<longrightarrow> \<not> enabled (submit_btn (modal j)))
      \<and> check_for_errors (modal (k - 2)) \<and> check_for_errors (modal (k - 1))
      \<and> check_for_errors (modal k)" for k
  proof
    assume A: "abort_by MAX_STEPS modal 0 0 k"
    then have k: "3 \<le> k" "k \<le> MAX_STEPS" by (auto simp: abort_by_def)
    have e: "check_for_errors (modal j)" if "0 < j" "j \<le> k" "k < j + 3" for j
      using A that by (auto simp: abort_by_def)
    have "check_for_errors (modal (k - 2))" "check_for_errors (modal (k - 1))"
      "check_for_errors (modal k)"
      using e[of "k - 2"] e[of "k - 1"] e[of k] k by simp_all
    moreover have "\<forall>j. 1 \<le> j \<and> j \<le> k \<longrightarrow> \<not> enabled (submit_btn (modal j))"
      using A by (auto simp: abort_by_def)
    ultimately show "3 \<le> k \<and> k \<le> MAX_STEPS
      \<and> (\<forall>j. 1 \<le> j \<and> j \<le> k \<longrightarrow> \<not> enabled (submit_btn (modal j)))
      \<and> check_for_errors (modal (k - 2)) \<and> check_for_errors (modal (k - 1))
      \<and> check_for_errors (modal k)" using k by simp
  next
    assume B: "3 \<le> k \<and> k \<le> MAX_STEPS
      \<and> (\<forall>j. 1 \<le> j \<and> j \<le> k \<longrightarrow> \<not> enabled (submit_btn (modal j)))
      \<and> check_for_errors (modal (k - 2)) \<and> check_for_errors (modal (k - 1))
      \<and> check_for_errors (modal k)"
    have "check_for_errors (modal j)" if "0 < j" "j \<le> k" "k < j + 3" for j
    proof -
      from that have "j = k \<or> j = k - 1 \<or> j = k - 2" by arith
      then show ?thesis using B by auto
    qed
    then show "abort_by MAX_STEPS modal 0 0 k"
      unfolding abort_by_def using B by auto
  qed
  have P4: "out = Aborted \<longleftrightarrow>
         (\<exists>k. 3 \<le> k \<and> k \<le> MAX_STEPS
            \<and> (\<forall>j. 1 \<le> j \<and> j \<le> k \<longrightarrow> \<not> enabled (submit_btn (modal j)))
            \<and> check_for_errors (modal (k - 2)) \<and> check_for_errors (modal (k - 1))
            \<and> check_for_errors (modal k))"
  proof
    assume "out = Aborted"
    then have "abort_by MAX_STEPS modal 0 0 (step a)" using ab by simp
    then show "\<exists>k. 3 \<le> k \<and> k \<le> MAX_STEPS
            \<and> (\<forall>j. 1 \<le> j \<and> j \<le> k \<longrightarrow> \<not> enabled (submit_btn (modal j)))
            \<and> check_for_errors (modal (k - 2)) \<and> check_for_errors (modal (k - 1))
            \<and> check_for_errors (modal k)"
      unfolding char by (rule exI)
  next
    assume "\<exists>k. 3 \<le> k \<and> k \<le> MAX_STEPS
            \<and> (\<forall>j. 1 \<le> j \<and> j \<le> k \<longrightarrow> \<not> enabled (submit_btn (modal j)))
            \<and> check_for_errors (modal (k - 2)) \<and> check_for_errors (modal (k - 1))
            \<and> check_for_errors (modal k)"
    then obtain k where "abort_by MAX_STEPS modal 0 0 k" unfolding char[symmetric] by blast
    then have "fst (handle_steps MAX_STEPS modal ?a0) = Aborted"
      using handle_steps_abort_by[of MAX_STEPS modal ?a0 k] init by simp
    then show "out = Aborted" using hs by simp
  qed
  have P3: "out = Aborted \<longleftrightarrow> consecutive_errors a = 3"
    using ab nab by (cases "out = Aborted") auto
  have P2: "consecutive_errors a \<le> 3"
    using ab nab by (cases "out = Aborted") auto
  have P5: "out = Aborted \<longrightarrow>
          3 \<le> step a
          \<and> check_for_errors (modal (step a - 2)) \<and> check_for_errors (modal (step a - 1))
          \<and> check_for_errors (modal (step a))
          \<and> fill_passes a = step a
          \<and> run_stats a = count_failed s"
    using ab char[of "step a"] by auto
  show ?thesis using P1 P2 P3 P4 P5 by blast
qed

text \<open>
  A modal that reports an error on every pass is abandoned in pass 3, after three fill passes
  and two clicks on next.
\<close>

theorem consecutive_errors_abort_witness:
  "handle_application_modal 10 (\<lambda>k. error_page) no_stats =
     (Aborted, \<lparr>page_num = 3, step = 3, consecutive_errors = 3, clicks = [ClickNext, ClickNext],
        uploads = 3, fill_passes = 3, run_stats = count_failed no_stats\<rparr>)
   \<and> check_for_errors error_page \<and> \<not> enabled (submit_btn error_page)"
proof -
  have e: "handle_application_modal 10 (\<lambda>k. error_page) no_stats =
     (Aborted, \<lparr>page_num = 3, step = 3, consecutive_errors = 3, clicks = [ClickNext, ClickNext],
        uploads = 3, fill_passes = 3, run_stats = count_failed no_stats\<rparr>)"
    by code_simp
  have c: "check_for_errors error_page" "\<not> enabled (submit_btn error_page)"
    by (simp_all add: check_for_errors_def error_page_def enabled_def)
  show ?thesis using e c consecutive_errors_abort[OF e] by simp
qed

section \<open>Navigation priority\<close>

text \<open>
  Claim C3. In a pass that starts within the step budget: an enabled submit button is clicked
  and the attempt ends Submitted. Otherwise, unless the error check aborts the attempt, an
  enabled next button is clicked, the page counter goes up and the loop goes on; otherwise an
  enabled review button is clicked and the loop goes on; otherwise nothing is clicked, and
  the attempt ends TimedOut when the step budget is used up and runs another pass when it is
  not. An attempt that ends TimedOut has used exactly \<open>MAX_STEPS\<close> passes. By the driver
  modelled from the specification, Submitted raises the counter of submitted applications by
  one and TimedOut the counter of failed applications by one.
\<close>

theorem navigation_priority:
  assumes lt: "step a < MAX_STEPS"
  shows "(let ob = modal (step a + 1);
              a1 = a\<lparr>step := step a + 1, uploads := uploads a + 1,
                     fill_passes := fill_passes a + 1,
                     consecutive_errors :=
                       (if check_for_errors ob then consecutive_errors a + 1 else 0)\<rparr>
          in (enabled (submit_btn ob) \<longrightarrow>
                handle_steps MAX_STEPS modal a =
                  (Submitted, a\<lparr>step := step a + 1, clicks := clicks a @ [ClickSubmit]\<rparr>))
           \<and> (\<not> enabled (submit_btn ob)
               \<and> \<not> (check_for_errors ob \<and> 3 \<le> consecutive_errors a + 1) \<longrightarrow>
                (if enabled (find_next_btn ob)
                 then handle_steps MAX_STEPS modal a =
                        handle_steps MAX_STEPS modal
                          (a1\<lparr>page_num := page_num a + 1, clicks := clicks a @ [ClickNext]\<rparr>)
                 else if enabled (review_btn ob)
                 then handle_steps MAX_STEPS modal a =
                        handle_steps MAX_STEPS modal (a1\<lparr>clicks := clicks a @ [ClickReview]\<rparr>)
                 else handle_steps MAX_STEPS modal a =
                        (if step a + 1 < MAX_STEPS then handle_steps MAX_STEPS modal a1
                         else (TimedOut, a1)))))
    \<and> (\<forall>s out a'. handle_application_modal MAX_STEPS modal s = (out, a') \<and> out = TimedOut \<longrightarrow>
           step a' = MAX_STEPS \<and> run_stats a' = s)
    \<and> (\<forall>page b out b'. apply_to_job MAX_STEPS page modal b = (out, b') \<longrightarrow>
          (out = Submitted \<longrightarrow> stats b' = count_submitted (stats b))
          \<and> (out = TimedOut \<longrightarrow> stats b' = count_failed (stats b)))
    \<and> (\<forall>s. applications_submitted (count_submitted s) = applications_submitted s + 1
           \<and> applications_failed (count_submitted s) = applications_failed s
           \<and> applications_failed (count_failed s) = applications_failed s + 1
           \<and> applications_submitted (count_failed s) = applications_submitted s)"
proof -
  let ?ob = "modal (step a + 1)"
  have unf: "handle_steps MAX_STEPS modal x =
      (if step x < MAX_STEPS then
        (case handle_step (modal (step x + 1)) x of
           (Some out, a') \<Rightarrow> (out, a')
         | (None, a') \<Rightarrow> handle_steps MAX_STEPS modal a')
      else (TimedOut, x))" for x
    by (rule handle_steps.simps)
  have P1: "(let ob = modal (step a + 1);
              a1 = a\<lparr>step := step a + 1, uploads := uploads a + 1,
                     fill_passes := fill_passes a + 1,
                     consecutive_errors :=
                       (if check_for_errors ob then consecutive_errors a + 1 else 0)\<rparr>
          in (enabled (submit_btn ob) \<longrightarrow>
                handle_steps MAX_STEPS modal a =
                  (Submitted, a\<lparr>step := step a + 1, clicks := clicks a @ [ClickSubmit]\<rparr>))
           \<and> (\<not> enabled (submit_btn ob)
               \<and> \<not> (check_for_errors ob \<and> 3 \<le> consecutive_errors a + 1) \<longrightarrow>
                (if enabled (find_next_btn ob)
                 then handle_steps MAX_STEPS modal a =
                        handle_steps MAX_STEPS modal
                          (a1\<lparr>page_num := page_num a + 1, clicks := clicks a @ [ClickNext]\<rparr>)
                 else if enabled (review_btn ob)
                 then handle_steps MAX_STEPS modal a =
                        handle_steps MAX_STEPS modal (a1\<lparr>clicks := clicks a @ [ClickReview]\<rparr>)
                 else handle_steps MAX_STEPS modal a =
                        (if step a + 1 < MAX_STEPS then handle_steps MAX_STEPS modal a1
                         else (TimedOut, a1)))))"
    unfolding Let_def
  proof (intro conjI impI)
    assume "enabled (submit_btn ?ob)"
    then show "handle_steps MAX_STEPS modal a =
        (Submitted, a\<lparr>step := step a + 1, clicks := clicks a @ [ClickSubmit]\<rparr>)"
      using lt by (subst unf) (simp add: handle_step_def navigate_def Let_def)
  next
    let ?a1 = "a\<lparr>step := step a + 1, uploads := uploads a + 1,
                     fill_passes := fill_passes a + 1,
                     consecutive_errors :=
                       (if check_for_errors ?ob then consecutive_errors a + 1 else 0)\<rparr>"
    assume h: "\<not> enabled (submit_btn ?ob)
               \<and> \<not> (check_for_errors ?ob \<and> 3 \<le> consecutive_errors a + 1)"
    have step: "handle_step ?ob a =
       (None, if enabled (find_next_btn ?ob)
              then ?a1\<lparr>page_num := page_num a + 1, clicks := clicks a @ [ClickNext]\<rparr>
              else if enabled (review_btn ?ob) then ?a1\<lparr>clicks := clicks a @ [ClickReview]\<rparr>
              else ?a1)"
      using h by (auto simp: handle_step_def navigate_def Let_def)
    have none: "handle_steps MAX_STEPS modal ?a1 = (TimedOut, ?a1)" if "\<not> step a + 1 < MAX_STEPS"
      using that by (subst unf) simp
    show "if enabled (find_next_btn ?ob)
          then handle_steps MAX_STEPS modal a =
                 handle_steps MAX_STEPS modal
                   (?a1\<lparr>page_num := page_num a + 1, clicks := clicks a @ [ClickNext]\<rparr>)
          else if enabled (review_btn ?ob)
          then handle_steps MAX_STEPS modal a =
                 handle_steps MAX_STEPS modal (?a1\<lparr>clicks := clicks a @ [ClickReview]\<rparr>)
          else handle_steps MAX_STEPS modal a =
                 (if step a + 1 < MAX_STEPS then handle_steps MAX_STEPS modal ?a1
                  else (TimedOut, ?a1))"
    proof -
      have "handle_steps MAX_STEPS modal a =
          (case handle_step ?ob a of
             (Some out, a') \<Rightarrow> (out, a')
           | (None, a') \<Rightarrow> handle_steps MAX_STEPS modal a')"
        using lt by (simp only: unf[of a] if_True)
      then have go: "handle_steps MAX_STEPS modal a =
          handle_steps MAX_STEPS modal
            (if enabled (find_next_btn ?ob)
              then ?a1\<lparr>page_num := page_num a + 1, clicks := clicks a @ [ClickNext]\<rparr>
              else if enabled (review_btn ?ob) then ?a1\<lparr>clicks := clicks a @ [ClickReview]\<rparr>
              else ?a1)"
        by (simp only: step prod.case option.case)
      show ?thesis
      proof (cases "enabled (find_next_btn ?ob)")
        case True
        then show ?thesis using go by (simp only: if_True)
      next
        case nn: False
        show ?thesis
        proof (cases "enabled (review_btn ?ob)")
          case True
          then show ?thesis using go nn by (simp only: if_True if_False)
        next
          case False
          then have "handle_steps MAX_STEPS modal a = handle_steps MAX_STEPS modal ?a1"
            using go nn by (simp only: if_False)
          then show ?thesis using nn False none by (cases "step a + 1 < MAX_STEPS") simp_all
        qed
      qed
    qed
  qed
  have P2: "\<forall>s out a'. handle_application_modal MAX_STEPS modal s = (out, a') \<and> out = TimedOut \<longrightarrow>
           step a' = MAX_STEPS \<and> run_stats a' = s"
  proof (intro allI impI)
    fix s out a'
    assume h: "handle_application_modal MAX_STEPS modal s = (out, a') \<and> out = TimedOut"
    then have "handle_steps MAX_STEPS modal (new_attempt s) = (out, a')" "out \<noteq> Aborted"
      by (simp_all add: handle_application_modal_def)
    from handle_steps_other[OF this] h show "step a' = MAX_STEPS \<and> run_stats a' = s"
      by (simp add: new_attempt_def)
  qed
  have P3: "\<forall>page b out b'. apply_to_job MAX_STEPS page modal b = (out, b') \<longrightarrow>
          (out = Submitted \<longrightarrow> stats b' = count_submitted (stats b))
          \<and> (out = TimedOut \<longrightarrow> stats b' = count_failed (stats b))"
  proof (intro allI impI)
    fix page b out b'
    assume job: "apply_to_job MAX_STEPS page modal b = (out, b')"
    obtain res b1 where loc: "get_modal_with_retry page b = (res, b1)"
      by (cases "get_modal_with_retry page b") auto
    have st: "stats b1 = stats b" using locate_result(1)[OF loc] .
    obtain o2 a2 where run: "handle_application_modal MAX_STEPS modal (stats b) = (o2, a2)"
      by (cases "handle_application_modal MAX_STEPS modal (stats b)") auto
    have keep: "run_stats a2 = stats b" if "o2 \<noteq> Aborted"
      using handle_steps_other[of MAX_STEPS modal "new_attempt (stats b)" o2 a2] run that
      by (simp add: handle_application_modal_def new_attempt_def)
    show "(out = Submitted \<longrightarrow> stats b' = count_submitted (stats b))
          \<and> (out = TimedOut \<longrightarrow> stats b' = count_failed (stats b))"
      using job loc st run keep
      by (cases res; cases o2) (auto simp: apply_to_job_def)
  qed
  have P4: "\<forall>s. applications_submitted (count_submitted s) = applications_submitted s + 1
           \<and> applications_failed (count_submitted s) = applications_failed s
           \<and> applications_failed (count_failed s) = applications_failed s + 1
           \<and> applications_submitted (count_failed s) = applications_submitted s"
    by (simp add: count_submitted_def count_failed_def)
  show ?thesis using P1 P2 P3 P4 by blast
qed

text \<open>
An application of three passes: next, review, submit.
\<close>

theorem navigation_priority_witness:
  "step (new_attempt no_stats) < 5
   \<and> handle_application_modal 5 easy_flow no_stats =
       (Submitted, \<lparr>page_num = 2, step = 3, consecutive_errors = 0,
          clicks = [ClickNext, ClickReview, ClickSubmit], uploads = 2, fill_passes = 2,
          run_stats = no_stats\<rparr>)
   \<and> apply_to_job 5 (\<lambda>n sel. Some 0) easy_flow new_bot =
       (Submitted, new_bot\<lparr>page_log := [Query ''.jobs-easy-apply-modal''],
          stats := count_submitted (stats new_bot)\<rparr>)"
proof -
  have l: "step (new_attempt no_stats) < 5" by (simp add: new_attempt_def)
  have e: "handle_application_modal 5 easy_flow no_stats =
       (Submitted, \<lparr>page_num = 2, step = 3, consecutive_errors = 0,
          clicks = [ClickNext, ClickReview, ClickSubmit], uploads = 2, fill_passes = 2,
          run_stats = no_stats\<rparr>)"
    by code_simp
  have j: "apply_to_job 5 (\<lambda>n sel. Some 0) easy_flow new_bot =
       (Submitted, new_bot\<lparr>page_log := [Query ''.jobs-easy-apply-modal''],
          stats := count_submitted (stats new_bot)\<rparr>)"
    by code_simp
  show ?thesis using l e j navigation_priority[OF l, of easy_flow] by simp
qed

end
